theory Spec2Isabelle
  imports Complex_Main
begin

section \<open>JavaScript strings\<close>

text \<open>
  A JavaScript string is a sequence of UTF-16 code units; the regular expression of the
  open-now resolver (no \<open>u\<close> flag) and \<open>includes\<close>/\<open>startsWith\<close> all work on code units.
  A string is therefore a list of code-unit numbers, and \<open>js\<close> writes an ASCII literal.
\<close>

type_synonym jsstring = "nat list"

definition js :: "string \<Rightarrow> jsstring" where
  "js s = map of_char s"

text \<open>\<open>String.prototype.startsWith\<close> and \<open>String.prototype.includes\<close>.\<close>

fun startsWith :: "jsstring \<Rightarrow> jsstring \<Rightarrow> bool" where
  "startsWith s [] = True"
| "startsWith [] (c # t) = False"
| "startsWith (d # s) (c # t) = (d = c \<and> startsWith s t)"

fun str_includes :: "jsstring \<Rightarrow> jsstring \<Rightarrow> bool" where
  "str_includes [] t = (t = [])"
| "str_includes (c # s) t = (startsWith (c # s) t \<or> str_includes s t)"

text \<open>
  \<open>String.prototype.toLowerCase\<close>. The letters \<open>A\<close>--\<open>Z\<close> go to \<open>a\<close>--\<open>z\<close>. Two code units
  outside ASCII have a lower case with an ASCII letter in it: the Kelvin sign U+212A
  becomes \<open>k\<close>, and the dotted capital I U+0130 becomes \<open>i\<close> followed by the combining dot
  U+0307. Every other code unit outside ASCII has a lower case without ASCII units (itself
  or another letter outside ASCII) and stands for it here; the program only ever searches
  the lower-cased text for ASCII terms.
\<close>

definition lowerUnit :: "nat \<Rightarrow> jsstring" where
  "lowerUnit c =
     (if 65 \<le> c \<and> c \<le> 90 then [c + 32]
      else if c = 8490 then [107]
      else if c = 304 then [105, 775]
      else [c])"

definition toLowerCase :: "jsstring \<Rightarrow> jsstring" where
  "toLowerCase s = concat (map lowerUnit s)"

text \<open>
  \<open>toUpperCase\<close> is applied only to the captured \<open>AM\<close>/\<open>PM\<close> group of the time pattern,
  which consists of ASCII letters; \<open>upperUnit\<close> is also the canonical form the \<open>i\<close> flag of
  a regular expression compares (a code unit outside ASCII is never canonicalised to an
  ASCII one).
\<close>

definition upperUnit :: "nat \<Rightarrow> nat" where
  "upperUnit c = (if 97 \<le> c \<and> c \<le> 122 then c - 32 else c)"

definition toUpperCase :: "jsstring \<Rightarrow> jsstring" where
  "toUpperCase s = map upperUnit s"

text \<open>\<open>Array.prototype.join\<close> with a separator.\<close>

fun join :: "jsstring \<Rightarrow> jsstring list \<Rightarrow> jsstring" where
  "join sep [] = []"
| "join sep [x] = x"
| "join sep (x # y # ys) = x @ sep @ join sep (y # ys)"

section \<open>The dermatology classifier of the collection script\<close>

text \<open>
  A raw place as the upstream search returns it. Every field may be absent
  (\<open>undefined\<close> in the source); only the fields the pipeline reads are kept.
\<close>

record place =
  p_id :: "jsstring option"
  p_displayName :: "jsstring option"
  p_websiteUri :: "jsstring option"
  p_types :: "jsstring list option"
  p_formattedAddress :: "jsstring option"
  p_primaryType :: "jsstring option"
  p_weekdayDescriptions :: "jsstring list option"

text \<open>\<open>x || ''\<close>: an absent or empty string counts as the empty string.\<close>

definition orEmpty :: "jsstring option \<Rightarrow> jsstring" where
  "orEmpty x = (case x of None \<Rightarrow> [] | Some s \<Rightarrow> s)"

definition nameText :: "place \<Rightarrow> jsstring" where
  "nameText p = toLowerCase (orEmpty (p_displayName p))"

definition websiteText :: "place \<Rightarrow> jsstring" where
  "websiteText p = toLowerCase (orEmpty (p_websiteUri p))"

definition typesText :: "place \<Rightarrow> jsstring" where
  "typesText p =
     toLowerCase (join (js '' '') (case p_types p of None \<Rightarrow> [] | Some ts \<Rightarrow> ts))"

definition searchText :: "place \<Rightarrow> jsstring" where
  "searchText p = nameText p @ js '' '' @ websiteText p @ js '' '' @ typesText p"

definition excludeTerms :: "jsstring list" where
  "excludeTerms =
     [js ''dental'', js ''dentist'', js ''orthodont'', js ''oral surgery'',
      js ''veterinary'', js ''animal clinic'', js ''pet clinic'',
      js ''massage'', js ''spa resort'', js ''day spa'', js ''nail salon'']"

definition coreTerms :: "jsstring list" where
  "coreTerms = [js ''dermatology'', js ''dermatologist'', js ''dermatologic'']"

definition relatedTerms :: "jsstring list" where
  "relatedTerms =
     [js ''skin clinic'', js ''skin center'', js ''skin care clinic'',
      js ''skin doctor'', js ''skin specialist'', js ''skin health'',
      js ''medical dermatology'', js ''cosmetic dermatology'',
      js ''laser dermatology'', js ''aesthetic dermatology'',
      js ''mohs surgery'', js ''skin cancer'']"

definition hasDerm :: "place \<Rightarrow> bool" where
  "hasDerm p = str_includes (searchText p) (js ''derm'')"

definition hasSkin :: "place \<Rightarrow> bool" where
  "hasSkin p =
     (str_includes (nameText p) (js ''skin'') \<or> str_includes (websiteText p) (js ''skin''))"

definition medicalContext :: "place \<Rightarrow> bool" where
  "medicalContext p =
     (str_includes (typesText p) (js ''doctor'') \<or>
      str_includes (typesText p) (js ''health'') \<or>
      str_includes (searchText p) (js ''medical'') \<or>
      str_includes (searchText p) (js ''clinic'') \<or>
      str_includes (searchText p) (js ''center''))"

definition isStore :: "place \<Rightarrow> bool" where
  "isStore p =
     (str_includes (typesText p) (js ''store'') \<or>
      str_includes (typesText p) (js ''beauty_supply_store'') \<or>
      str_includes (searchText p) (js ''beauty supply'') \<or>
      str_includes (searchText p) (js ''cosmetics store''))"

text \<open>The six rules of \<open>acceptByDermHeuristics\<close>, in the order of the source.\<close>

definition acceptByDermHeuristics :: "place \<Rightarrow> bool" where
  "acceptByDermHeuristics p =
     (if list_ex (str_includes (searchText p)) excludeTerms then False
      else if str_includes (typesText p) (js ''skin_care_clinic'') then True
      else if list_ex (str_includes (searchText p)) coreTerms then True
      else if list_ex (\<lambda>term. str_includes (nameText p) term \<or>
                              str_includes (websiteText p) term) relatedTerms then True
      else if (hasDerm p \<or> hasSkin p) \<and> medicalContext p then \<not> isStore p
      else False)"

text \<open>
  The exclude list and the core list as the specification words them, for comparison
  with \<open>excludeTerms\<close> and \<open>coreTerms\<close> of the source.
\<close>

definition spec_excludeTerms :: "jsstring list" where
  "spec_excludeTerms =
     [js ''dental'', js ''dentist'', js ''orthodontic'', js ''oral surgery'',
      js ''veterinary'', js ''animal'', js ''pet'', js ''massage'',
      js ''spa-resort'', js ''day-spa'', js ''nail-salon'']"

definition spec_coreTerms :: "jsstring list" where
  "spec_coreTerms =
     [js ''dermatology'', js ''dermatologist'', js ''dermatologic'', js ''derma'']"

text \<open>Example candidates.\<close>

definition named :: "string \<Rightarrow> string list \<Rightarrow> place" where
  "named n ts =
     \<lparr>p_id = Some (js n), p_displayName = Some (js n), p_websiteUri = None,
      p_types = Some (map js ts), p_formattedAddress = None, p_primaryType = None,
      p_weekdayDescriptions = None\<rparr>"

section \<open>The throttled request gateway (lib/googlePlaces.ts)\<close>

text \<open>
  Exceptions of the program, as values. \<open>Thrown\<close> stands for an exception raised by the
  platform (a network failure of \<open>fetch\<close>, a body that is not JSON), with its message.
\<close>

datatype exn =
    MissingApiKey
  | PlacesApiError nat
  | TextSearchError nat
  | SearchTextFailed nat
  | GlobalClinicCapHit
  | Thrown jsstring

text \<open>The body of a search response: \<open>data.places\<close> and \<open>data.nextPageToken\<close>.\<close>

record payload =
  places :: "place list option"
  nextPageToken :: "jsstring option"

text \<open>A response: its status and what \<open>response.json()\<close> yields (it may throw).\<close>

record response =
  status :: nat
  body :: "exn + payload"

definition ok :: "response \<Rightarrow> bool" where
  "ok res = (200 \<le> status res \<and> status res \<le> 299)"

text \<open>
  Coordinates are JavaScript numbers: finite doubles, which are rational numbers (the
  section on grid generation gives their arithmetic).
\<close>

record location =
  lat :: rat
  lng :: rat

datatype rank = POPULARITY | DISTANCE

datatype request =
    SearchNearby location nat rank
  | SearchText jsstring "jsstring option"

text \<open>
  The outside world of the library: the upstream service answers the \<open>n\<close>-th call of
  the process (it may answer the same request differently each time, or \<open>fetch\<close> may
  throw), \<open>Math.random\<close> supplies the jitter of the \<open>n\<close>-th call, and the environment
  holds the API key.
\<close>

record world =
  upstream :: "nat \<Rightarrow> request \<Rightarrow> exn + response"
  random250 :: "nat \<Rightarrow> nat"
  GOOGLE_PLACES_API_KEY :: "jsstring option"

text \<open>
  The state of the gateway: the number of calls made so far and the back-off sleeps, in
  milliseconds, in the order they happened. The wait of the rate limiter depends on the
  wall clock (\<open>Date.now()\<close>) and is not part of the model.
\<close>

record net =
  calls :: nat
  sleeps :: "nat list"

definition retryable :: "response \<Rightarrow> bool" where
  "retryable res = (status res = 429 \<or> (500 \<le> status res \<and> status res < 600))"

text \<open>
  The \<open>while (true)\<close> loop of \<open>fetchWithBackoff\<close>, from attempt number \<open>attempt\<close> on.
  An exception of \<open>fetch\<close> is not caught and leaves the loop.
\<close>

function fetchLoop ::
  "world \<Rightarrow> request \<Rightarrow> nat \<Rightarrow> nat \<Rightarrow> net \<Rightarrow> (exn + response) \<times> net" where
  "fetchLoop w req maxRetries attempt s =
     (case upstream w (calls s) req of
        Inl e \<Rightarrow> (Inl e, s\<lparr>calls := Suc (calls s)\<rparr>)
      | Inr res \<Rightarrow>
          if ok res then (Inr res, s\<lparr>calls := Suc (calls s)\<rparr>)
          else if retryable res \<and> attempt < maxRetries then
            fetchLoop w req maxRetries (attempt + 1)
              (s\<lparr>calls := Suc (calls s),
                 sleeps := sleeps s @ [500 * 2 ^ attempt + random250 w (calls s) mod 250]\<rparr>)
          else (Inr res, s\<lparr>calls := Suc (calls s)\<rparr>))"
  by pat_completeness auto
termination
  by (relation "measure (\<lambda>(w, req, maxRetries, attempt, s). maxRetries - attempt)") auto

text \<open>No caller passes options, so \<open>maxRetries\<close> has its default 5.\<close>

definition fetchWithBackoff :: "world \<Rightarrow> request \<Rightarrow> net \<Rightarrow> (exn + response) \<times> net" where
  "fetchWithBackoff w req s = fetchLoop w req 5 0 s"

text \<open>An upstream that answers every call with the given status and an unreadable body.\<close>

definition failing :: "nat \<Rightarrow> world" where
  "failing code =
     \<lparr>upstream = (\<lambda>n req. Inr \<lparr>status = code, body = Inl (Thrown [])\<rparr>),
      random250 = (\<lambda>n. 0),
      GOOGLE_PLACES_API_KEY = Some (js ''key'')\<rparr>"

definition net0 :: net where
  "net0 = \<lparr>calls = 0, sleeps = []\<rparr>"

section \<open>Normalizing and searching (lib/googlePlaces.ts)\<close>

text \<open>
  The \<open>Clinic\<close> of lib/dataTypes.ts as \<open>transformSinglePlace\<close> fills it; the fields that
  only copy an upstream value (rating, phone numbers, options, photos, hours) are left out.
\<close>

record clinic =
  c_place_id :: jsstring
  c_display_name :: jsstring
  c_formatted_address :: jsstring
  c_primary_type :: jsstring
  c_types :: "jsstring list"
  c_website :: "jsstring option"

definition DERM_TERMS :: "jsstring list" where
  "DERM_TERMS =
     [js ''dermatology'', js ''dermatologist'', js ''derma'', js ''skin clinic'',
      js ''skin center'', js ''medical dermatology'', js ''cosmetic dermatology'',
      js ''laser dermatology'', js ''skin care'']"

text \<open>A JavaScript string used as a condition: absent and empty are falsy.\<close>

definition truthy :: "jsstring option \<Rightarrow> jsstring option" where
  "truthy x = (case x of None \<Rightarrow> None | Some s \<Rightarrow> if s = [] then None else Some s)"

definition orElse :: "jsstring option \<Rightarrow> jsstring \<Rightarrow> jsstring" where
  "orElse x d = (case truthy x of None \<Rightarrow> d | Some s \<Rightarrow> s)"

definition transformSinglePlace :: "place \<Rightarrow> clinic option" where
  "transformSinglePlace p =
     (case truthy (p_id p) of
        None \<Rightarrow> None
      | Some i \<Rightarrow>
          let types = (case p_types p of None \<Rightarrow> [] | Some ts \<Rightarrow> ts);
              displayName = orEmpty (p_displayName p);
              lowerName = toLowerCase displayName;
              lowerSite = toLowerCase (orEmpty (p_websiteUri p));
              hasDermTerm =
                (list_ex (str_includes lowerName) DERM_TERMS \<or>
                 str_includes lowerName (js ''derm'') \<or>
                 str_includes lowerName (js ''skin'') \<or>
                 str_includes lowerSite (js ''derm'') \<or>
                 str_includes lowerSite (js ''skin''));
              isDermatology = (List.member types (js ''skin_care_clinic'') \<or> hasDermTerm)
          in if \<not> isDermatology then None
             else Some \<lparr>c_place_id = i,
                        c_display_name = displayName,
                        c_formatted_address = orEmpty (p_formattedAddress p),
                        c_primary_type = orElse (p_primaryType p) (js ''doctor''),
                        c_types = types,
                        c_website = p_websiteUri p\<rparr>)"

definition transformPlacesResponse :: "place list \<Rightarrow> clinic list" where
  "transformPlacesResponse ps = List.map_filter transformSinglePlace ps"

text \<open>\<open>data.places || []\<close>.\<close>

definition placesOf :: "payload \<Rightarrow> place list" where
  "placesOf d = (case places d of None \<Rightarrow> [] | Some ps \<Rightarrow> ps)"

text \<open>
  The body of the \<open>try\<close> block of \<open>searchDermClinics\<close>: each \<open>throw\<close> and each exception
  of an awaited call is an \<open>Inl\<close>. A body on which \<open>response.json()\<close> or the
  transformation throws is \<open>body res = Inl e\<close>.
\<close>

definition searchDermClinics_try ::
  "world \<Rightarrow> location \<Rightarrow> nat \<Rightarrow> rank \<Rightarrow> net \<Rightarrow> (exn + clinic list) \<times> net" where
  "searchDermClinics_try w loc radius rk s =
     (case truthy (GOOGLE_PLACES_API_KEY w) of
        None \<Rightarrow> (Inl MissingApiKey, s)
      | Some apiKey \<Rightarrow>
          (case fetchWithBackoff w (SearchNearby loc radius rk) s of
             (Inl e, s1) \<Rightarrow> (Inl e, s1)
           | (Inr res, s1) \<Rightarrow>
               if \<not> ok res then (Inl (PlacesApiError (status res)), s1)
               else (case body res of
                       Inl e \<Rightarrow> (Inl e, s1)
                     | Inr d \<Rightarrow> (Inr (transformPlacesResponse (placesOf d)), s1))))"

text \<open>\<open>searchDermClinics\<close>: the \<open>catch\<close> logs the error and returns the empty list.\<close>

definition searchDermClinics ::
  "world \<Rightarrow> location \<Rightarrow> nat \<Rightarrow> rank \<Rightarrow> net \<Rightarrow> clinic list \<times> net" where
  "searchDermClinics w loc radius rk s =
     (case searchDermClinics_try w loc radius rk s of
        (Inl e, s1) \<Rightarrow> ([], s1)
      | (Inr cs, s1) \<Rightarrow> (cs, s1))"

text \<open>\<open>searchDermClinicsTextPage\<close> has no \<open>try\<close>: its exceptions reach the caller.\<close>

definition searchDermClinicsTextPage ::
  "world \<Rightarrow> jsstring \<Rightarrow> jsstring option \<Rightarrow> net \<Rightarrow> (exn + payload) \<times> net" where
  "searchDermClinicsTextPage w query pageToken s =
     (case truthy (GOOGLE_PLACES_API_KEY w) of
        None \<Rightarrow> (Inl MissingApiKey, s)
      | Some apiKey \<Rightarrow>
          (case fetchWithBackoff w (SearchText query (truthy pageToken)) s of
             (Inl e, s1) \<Rightarrow> (Inl e, s1)
           | (Inr resp, s1) \<Rightarrow>
               if \<not> ok resp then (Inl (TextSearchError (status resp)), s1)
               else (case body resp of
                       Inl e \<Rightarrow> (Inl e, s1)
                     | Inr d \<Rightarrow> (Inr d, s1))))"

text \<open>
  The deduplicating collector of the library: the array \<open>all\<close> and the set \<open>seen\<close>, and
  the body of \<open>for (const c of batch)\<close>, which both \<open>searchDermClinicsText\<close> and
  \<open>searchDermClinicsGrid\<close> repeat.
\<close>

record collected =
  all_clinics :: "clinic list"
  seen_ids :: "jsstring set"

definition collected0 :: collected where
  "collected0 = \<lparr>all_clinics = [], seen_ids = {}\<rparr>"

definition addClinic :: "collected \<Rightarrow> clinic \<Rightarrow> collected" where
  "addClinic acc c =
     (if c_place_id c \<in> seen_ids acc then acc
      else acc\<lparr>seen_ids := insert (c_place_id c) (seen_ids acc),
               all_clinics := all_clinics acc @ [c]\<rparr>)"

text \<open>
  The collector's \<open>add\<close> as the specification words it, returning whether it inserted,
  for comparison with \<open>addClinic\<close>: the source inlines the step, and the boolean is its
  test \<open>!seen.has(c.place_id)\<close>.
\<close>

definition spec_add :: "collected \<Rightarrow> clinic \<Rightarrow> bool \<times> collected" where
  "spec_add acc c =
     (if c_place_id c \<in> seen_ids acc then (False, acc)
      else (True, acc\<lparr>seen_ids := insert (c_place_id c) (seen_ids acc),
                     all_clinics := all_clinics acc @ [c]\<rparr>))"

definition addBatch :: "collected \<Rightarrow> clinic list \<Rightarrow> collected" where
  "addBatch acc batch = foldl addClinic acc batch"

text \<open>
  The \<open>do ... while (pageToken && pagesFetched < pageLimitPerQuery)\<close> loop of
  \<open>searchDermClinicsText\<close> for one query.
\<close>

function textPages ::
  "world \<Rightarrow> jsstring \<Rightarrow> nat \<Rightarrow> jsstring option \<Rightarrow> nat \<Rightarrow> collected \<Rightarrow> net \<Rightarrow>
   (exn + collected) \<times> net" where
  "textPages w q pageLimitPerQuery pageToken pagesFetched acc s =
     (case searchDermClinicsTextPage w q pageToken s of
        (Inl e, s1) \<Rightarrow> (Inl e, s1)
      | (Inr d, s1) \<Rightarrow>
          if truthy (nextPageToken d) \<noteq> None \<and> pagesFetched + 1 < pageLimitPerQuery
          then textPages w q pageLimitPerQuery (nextPageToken d) (pagesFetched + 1)
                 (addBatch acc (transformPlacesResponse (placesOf d))) s1
          else (Inr (addBatch acc (transformPlacesResponse (placesOf d))), s1))"
  by pat_completeness auto
termination
  by (relation "measure (\<lambda>(w, q, cap, tok, fetched, acc, s). cap - fetched)") auto

text \<open>The \<open>for (const q of queries)\<close> loop.\<close>

fun textQueries ::
  "world \<Rightarrow> jsstring list \<Rightarrow> nat \<Rightarrow> collected \<Rightarrow> net \<Rightarrow> (exn + collected) \<times> net" where
  "textQueries w [] pageLimitPerQuery acc s = (Inr acc, s)"
| "textQueries w (q # qs) pageLimitPerQuery acc s =
     (case textPages w q pageLimitPerQuery None 0 acc s of
        (Inl e, s1) \<Rightarrow> (Inl e, s1)
      | (Inr acc1, s1) \<Rightarrow> textQueries w qs pageLimitPerQuery acc1 s1)"

definition searchDermClinicsText ::
  "world \<Rightarrow> jsstring list \<Rightarrow> nat \<Rightarrow> net \<Rightarrow> (exn + clinic list) \<times> net" where
  "searchDermClinicsText w queries pageLimitPerQuery s =
     (case textQueries w queries pageLimitPerQuery collected0 s of
        (Inl e, s1) \<Rightarrow> (Inl e, s1)
      | (Inr acc, s1) \<Rightarrow> (Inr (all_clinics acc), s1))"

text \<open>The \<open>for (const p of points)\<close> loop of \<open>searchDermClinicsGrid\<close>.\<close>

fun gridPoints :: "world \<Rightarrow> location list \<Rightarrow> nat \<Rightarrow> collected \<Rightarrow> net \<Rightarrow> collected \<times> net" where
  "gridPoints w [] radiusMeters acc s = (acc, s)"
| "gridPoints w (p # ps) radiusMeters acc s =
     (case searchDermClinics w p radiusMeters DISTANCE s of
        (batch, s1) \<Rightarrow> gridPoints w ps radiusMeters (addBatch acc batch) s1)"

text \<open>
  The collector as the specification words it: of the entities offered, in the order in
  which they are offered, the first one of each key is kept (first-seen wins, in the order
  of first insertion).
\<close>

fun firstSeen :: "('a \<Rightarrow> 'k) \<Rightarrow> 'a list \<Rightarrow> 'a list" where
  "firstSeen key [] = []"
| "firstSeen key (x # xs) = x # firstSeen key (filter (\<lambda>y. key y \<noteq> key x) xs)"

text \<open>
  What one call of the library reads from the upstream, in the order in which it reads it:
  the places of the pages that \<open>searchDermClinicsText\<close> fetches for one query (it follows
  the continuation tokens up to its page limit) and for all its queries, and the batches
  that the grid sweep gets for its points. These functions only observe the calls; the
  collectors are compared with \<open>firstSeen\<close> of what they return.
\<close>

function readPages ::
  "world \<Rightarrow> jsstring \<Rightarrow> nat \<Rightarrow> jsstring option \<Rightarrow> nat \<Rightarrow> net \<Rightarrow> place list \<times> net" where
  "readPages w q pageLimitPerQuery pageToken pagesFetched s =
     (case searchDermClinicsTextPage w q pageToken s of
        (Inl e, s1) \<Rightarrow> ([], s1)
      | (Inr d, s1) \<Rightarrow>
          if truthy (nextPageToken d) \<noteq> None \<and> pagesFetched + 1 < pageLimitPerQuery
          then (case readPages w q pageLimitPerQuery (nextPageToken d) (pagesFetched + 1) s1 of
                  (ps, s2) \<Rightarrow> (placesOf d @ ps, s2))
          else (placesOf d, s1))"
  by pat_completeness auto
termination
  by (relation "measure (\<lambda>(w, q, cap, tok, fetched, s). cap - fetched)") auto

declare readPages.simps [simp del]

fun readQueries :: "world \<Rightarrow> jsstring list \<Rightarrow> nat \<Rightarrow> net \<Rightarrow> place list \<times> net" where
  "readQueries w [] pageLimitPerQuery s = ([], s)"
| "readQueries w (q # qs) pageLimitPerQuery s =
     (case readPages w q pageLimitPerQuery None 0 s of
        (ps, s1) \<Rightarrow> (case readQueries w qs pageLimitPerQuery s1 of (ps', s2) \<Rightarrow> (ps @ ps', s2)))"

fun gridBatches :: "world \<Rightarrow> location list \<Rightarrow> nat \<Rightarrow> net \<Rightarrow> clinic list" where
  "gridBatches w [] radiusMeters s = []"
| "gridBatches w (p # ps) radiusMeters s =
     (case searchDermClinics w p radiusMeters DISTANCE s of
        (batch, s1) \<Rightarrow> batch @ gridBatches w ps radiusMeters s1)"

text \<open>The collector has stored the first-seen clinics of everything offered so far.\<close>

definition accOf :: "clinic list \<Rightarrow> collected \<Rightarrow> bool" where
  "accOf tr acc =
     (all_clinics acc = firstSeen c_place_id tr \<and> seen_ids acc = c_place_id ` set tr)"

text \<open>An upstream that answers every call with status 200 and the given body.\<close>

definition answering :: "payload \<Rightarrow> world" where
  "answering d =
     \<lparr>upstream = (\<lambda>n req. Inr \<lparr>status = 200, body = Inr d\<rparr>),
      random250 = (\<lambda>n. 0),
      GOOGLE_PLACES_API_KEY = Some (js ''key'')\<rparr>"

definition origin :: location where
  "origin = \<lparr>lat = 0, lng = 0\<rparr>"

section \<open>The collection script\<close>

text \<open>
  The limits the script reads from the environment. The rate (\<open>PLACES_QPS\<close>) and the
  delay between pages only set how long the script sleeps and are left out.
\<close>

record config =
  MAX_REQUESTS :: nat
  MAX_CLINICS_PER_STATE :: nat
  MAX_CLINICS_GLOBAL :: nat

text \<open>The module-level counters.\<close>

record globals =
  REQUESTS :: nat
  GLOBAL_CLINICS :: nat

definition gate :: "globals \<Rightarrow> globals" where
  "gate g = g\<lparr>REQUESTS := REQUESTS g + 1\<rparr>"

text \<open>
  \<open>searchTextOnce\<close>: \<open>gate\<close>, one \<open>fetch\<close> (the call number \<open>REQUESTS\<close> of the run; no
  back-off), an exception for a response that is not OK, else the body.
\<close>

definition searchTextOnce ::
  "(nat \<Rightarrow> request \<Rightarrow> exn + response) \<Rightarrow> jsstring \<Rightarrow> jsstring option \<Rightarrow> globals \<Rightarrow>
   (exn + payload) \<times> globals" where
  "searchTextOnce up query pageToken g =
     (case up (REQUESTS g) (SearchText query (truthy pageToken)) of
        Inl e \<Rightarrow> (Inl e, gate g)
      | Inr res \<Rightarrow>
          if \<not> ok res then (Inl (SearchTextFailed (status res)), gate g)
          else (body res, gate g))"

text \<open>The object \<open>toClinic\<close> builds, with \<open>null\<close> for an absent value.\<close>

record stored =
  s_place_id :: "jsstring option"
  s_display_name :: "jsstring option"
  s_formatted_address :: "jsstring option"
  s_primary_type :: "jsstring option"
  s_types :: "jsstring list"
  s_website :: "jsstring option"

definition toClinic :: "place \<Rightarrow> stored" where
  "toClinic p =
     \<lparr>s_place_id = p_id p,
      s_display_name = p_displayName p,
      s_formatted_address = p_formattedAddress p,
      s_primary_type = p_primaryType p,
      s_types = (case p_types p of None \<Rightarrow> [] | Some ts \<Rightarrow> ts),
      s_website = p_websiteUri p\<rparr>"

text \<open>The locals \<open>seen\<close> and \<open>clinics\<close> of one \<open>collectState\<close> call.\<close>

record collecting =
  seen :: "jsstring set"
  clinics :: "stored list"

text \<open>
  The \<open>for (const p of places)\<close> loop. The per-state cap leaves the loop (\<open>break\<close>); the
  global cap throws; the counter \<open>GLOBAL_CLINICS\<close> keeps its value when it throws.
\<close>

fun processPlaces ::
  "config \<Rightarrow> place list \<Rightarrow> collecting \<Rightarrow> globals \<Rightarrow> (exn + collecting) \<times> globals" where
  "processPlaces cfg [] c g = (Inr c, g)"
| "processPlaces cfg (p # ps) c g =
     (if \<not> acceptByDermHeuristics p then processPlaces cfg ps c g
      else case truthy (p_id p) of
        None \<Rightarrow> processPlaces cfg ps c g
      | Some i \<Rightarrow>
          if i \<in> seen c then processPlaces cfg ps c g
          else
            let c1 = c\<lparr>seen := insert i (seen c), clinics := clinics c @ [toClinic p]\<rparr>;
                g1 = g\<lparr>GLOBAL_CLINICS := GLOBAL_CLINICS g + 1\<rparr>
            in if MAX_CLINICS_PER_STATE cfg \<noteq> 0 \<and>
                  length (clinics c1) \<ge> MAX_CLINICS_PER_STATE cfg
               then (Inr c1, g1)
               else if MAX_CLINICS_GLOBAL cfg \<noteq> 0 \<and>
                       GLOBAL_CLINICS g1 \<ge> MAX_CLINICS_GLOBAL cfg
               then (Inl GlobalClinicCapHit, g1)
               else processPlaces cfg ps c1 g1)"

text \<open>
  The \<open>do ... while (pageToken)\<close> loop of \<open>collectState\<close> for one query. After the inner
  loop the token is assigned from \<open>data.nextPageToken\<close> whatever happened before;
  \<open>pagesForQuery\<close> is counted and never read. The loop has no bound of its own, so the
  result is an option: \<open>None\<close> when it never ends.
\<close>

partial_function (option) pageLoop ::
  "(nat \<Rightarrow> request \<Rightarrow> exn + response) \<Rightarrow> config \<Rightarrow> jsstring \<Rightarrow> jsstring option \<Rightarrow>
   collecting \<Rightarrow> globals \<Rightarrow> ((exn + collecting) \<times> globals) option" where
  "pageLoop up cfg q pageToken c g =
     (case searchTextOnce up q pageToken g of
        (Inl e, g1) \<Rightarrow> Some (Inl e, g1)
      | (Inr d, g1) \<Rightarrow>
          (case processPlaces cfg (placesOf d) c g1 of
             (Inl e, g2) \<Rightarrow> Some (Inl e, g2)
           | (Inr c2, g2) \<Rightarrow>
               (case truthy (nextPageToken d) of
                  Some t \<Rightarrow> pageLoop up cfg q (Some t) c2 g2
                | None \<Rightarrow> Some (Inr c2, g2))))"

declare pageLoop.simps [code]

text \<open>The \<open>for (const q of queries)\<close> loop.\<close>

fun queryLoop ::
  "(nat \<Rightarrow> request \<Rightarrow> exn + response) \<Rightarrow> config \<Rightarrow> jsstring list \<Rightarrow>
   collecting \<Rightarrow> globals \<Rightarrow> ((exn + collecting) \<times> globals) option" where
  "queryLoop up cfg [] c g = Some (Inr c, g)"
| "queryLoop up cfg (q # qs) c g =
     (case pageLoop up cfg q None c g of
        None \<Rightarrow> None
      | Some (Inl e, g1) \<Rightarrow> Some (Inl e, g1)
      | Some (Inr c1, g1) \<Rightarrow> queryLoop up cfg qs c1 g1)"

definition queries :: "jsstring \<Rightarrow> jsstring list" where
  "queries stateCode =
     [js ''dermatology clinic in '' @ stateCode,
      js ''dermatologist in '' @ stateCode,
      js ''skin clinic in '' @ stateCode]"

text \<open>
  The file \<open>collectState\<close> writes once all queries are done (a failure of the file
  system is not modelled).
\<close>

record statefile =
  f_name :: jsstring
  f_state :: jsstring
  f_total :: nat
  f_clinics :: "stored list"

definition collectState ::
  "(nat \<Rightarrow> request \<Rightarrow> exn + response) \<Rightarrow> config \<Rightarrow> jsstring \<Rightarrow> globals \<Rightarrow>
   ((exn + statefile) \<times> globals) option" where
  "collectState up cfg stateCode g =
     (case queryLoop up cfg (queries stateCode) \<lparr>seen = {}, clinics = []\<rparr> g of
        None \<Rightarrow> None
      | Some (Inl e, g1) \<Rightarrow> Some (Inl e, g1)
      | Some (Inr c, g1) \<Rightarrow>
          Some (Inr \<lparr>f_name = toLowerCase stateCode @ js ''.json'',
                     f_state = stateCode,
                     f_total = length (clinics c),
                     f_clinics = clinics c\<rparr>, g1))"

text \<open>\<open>e.message\<close>, with a status written in decimal.\<close>

fun decimal :: "nat \<Rightarrow> jsstring" where
  "decimal n = (if n < 10 then [48 + n] else decimal (n div 10) @ [48 + n mod 10])"

fun message :: "exn \<Rightarrow> jsstring" where
  "message MissingApiKey = js ''Missing GOOGLE_PLACES_API_KEY''"
| "message (PlacesApiError n) = js ''Places API error: '' @ decimal n"
| "message (TextSearchError n) = js ''Text Search error: '' @ decimal n"
| "message (SearchTextFailed n) = js ''searchText failed: '' @ decimal n"
| "message GlobalClinicCapHit = js ''Global clinic cap hit''"
| "message (Thrown m) = m"

text \<open>
  The \<open>for (const st of states)\<close> loop of \<open>main\<close>: an exception of \<open>collectState\<close> is
  caught; the loop stops when its message names a cap and goes on to the next state
  otherwise. The result is the files written, in order, and the counters.
\<close>

fun statesLoop ::
  "(nat \<Rightarrow> request \<Rightarrow> exn + response) \<Rightarrow> config \<Rightarrow> jsstring list \<Rightarrow> statefile list \<Rightarrow>
   globals \<Rightarrow> (statefile list \<times> globals) option" where
  "statesLoop up cfg [] files g = Some (files, g)"
| "statesLoop up cfg (st # sts) files g =
     (case collectState up cfg st g of
        None \<Rightarrow> None
      | Some (Inr f, g1) \<Rightarrow> statesLoop up cfg sts (files @ [f]) g1
      | Some (Inl e, g1) \<Rightarrow>
          if str_includes (message e) (js ''Global clinic cap hit'') \<or>
             str_includes (message e) (js ''Daily request cap hit'')
          then Some (files, g1)
          else statesLoop up cfg sts files g1)"

definition main ::
  "(nat \<Rightarrow> request \<Rightarrow> exn + response) \<Rightarrow> config \<Rightarrow> jsstring list \<Rightarrow>
   (statefile list \<times> globals) option" where
  "main up cfg states = statesLoop up cfg states [] \<lparr>REQUESTS = 0, GLOBAL_CLINICS = 0\<rparr>"

text \<open>
  Upstreams for the script: one answers every call with an empty page and no token, one
  answers every call with an empty page and a continuation token, one answers every call
  with the same single place.
\<close>

definition emptyPages :: "nat \<Rightarrow> request \<Rightarrow> exn + response" where
  "emptyPages n req = Inr \<lparr>status = 200, body = Inr \<lparr>places = Some [], nextPageToken = None\<rparr>\<rparr>"

definition endless :: "nat \<Rightarrow> request \<Rightarrow> exn + response" where
  "endless n req =
     Inr \<lparr>status = 200, body = Inr \<lparr>places = Some [], nextPageToken = Some (js ''next'')\<rparr>\<rparr>"

definition onePlace :: "place \<Rightarrow> nat \<Rightarrow> request \<Rightarrow> exn + response" where
  "onePlace p n req =
     Inr \<lparr>status = 200, body = Inr \<lparr>places = Some [p], nextPageToken = None\<rparr>\<rparr>"

definition uncapped :: config where
  "uncapped = \<lparr>MAX_REQUESTS = 800, MAX_CLINICS_PER_STATE = 0, MAX_CLINICS_GLOBAL = 0\<rparr>"

text \<open>Two configurations with the same clinic caps (they may differ in \<open>MAX_REQUESTS\<close>).\<close>

definition sameLimits :: "config \<Rightarrow> config \<Rightarrow> bool" where
  "sameLimits a b =
     (MAX_CLINICS_PER_STATE a = MAX_CLINICS_PER_STATE b \<and>
      MAX_CLINICS_GLOBAL a = MAX_CLINICS_GLOBAL b)"

text \<open>
  Invariants of the two collectors: the stored identifiers are pairwise different and all
  in the seen-set.
\<close>

definition collecting_ok :: "collecting \<Rightarrow> bool" where
  "collecting_ok c =
     (distinct (map s_place_id (clinics c)) \<and>
      list_all (\<lambda>x. case s_place_id x of None \<Rightarrow> False | Some i \<Rightarrow> i \<in> seen c) (clinics c))"

definition collected_ok :: "collected \<Rightarrow> bool" where
  "collected_ok acc =
     (distinct (map c_place_id (all_clinics acc)) \<and>
      seen_ids acc = set (map c_place_id (all_clinics acc)))"

text \<open>A dermatology practice, and the identifiers stored in a list of written files.\<close>

definition sunDerm :: place where
  "sunDerm = named ''Sun Dermatology'' [''doctor'']"

definition storedIds :: "statefile list \<Rightarrow> jsstring option list" where
  "storedIds files = map s_place_id (concat (map f_clinics files))"

definition globals0 :: globals where
  "globals0 = \<lparr>REQUESTS = 0, GLOBAL_CLINICS = 0\<rparr>"

text \<open>
  A candidate of the script: a place that the classifier accepts and that has an
  identifier (\<open>id && ...\<close>).
\<close>

definition candidate :: "place \<Rightarrow> bool" where
  "candidate p = (acceptByDermHeuristics p \<and> truthy (p_id p) \<noteq> None)"

text \<open>
  What the upstream serves to one \<open>collectState\<close> call: the pages (each the list of its
  places) it returns for one query from call number \<open>n\<close> on, following its own
  continuation tokens to the page without one, and the number of the call after the
  last; then the same for a list of queries, one after the other. \<open>None\<close> when a call
  fails or the pages never end.

  \<open>classifiedOf cfg stored cl page\<close>: \<open>cl\<close> is the part of a served page that the loop over
  its places has classified, a prefix of the page, and the whole page unless the
  per-state cap is set and \<open>stored\<close> clinics reach it.
\<close>

partial_function (option) servedPages ::
  "(nat \<Rightarrow> request \<Rightarrow> exn + response) \<Rightarrow> jsstring \<Rightarrow> jsstring option \<Rightarrow> nat \<Rightarrow>
   (place list list \<times> nat) option" where
  "servedPages up q pageToken n =
     (case up n (SearchText q (truthy pageToken)) of
        Inl e \<Rightarrow> None
      | Inr res \<Rightarrow>
          if \<not> ok res then None
          else (case body res of
                  Inl e \<Rightarrow> None
                | Inr d \<Rightarrow>
                    (case truthy (nextPageToken d) of
                       None \<Rightarrow> Some ([placesOf d], n + 1)
                     | Some t \<Rightarrow>
                         Option.bind (servedPages up q (Some t) (n + 1))
                           (\<lambda>(pages, m). Some (placesOf d # pages, m)))))"

declare servedPages.simps [code]

fun servedQueries ::
  "(nat \<Rightarrow> request \<Rightarrow> exn + response) \<Rightarrow> jsstring list \<Rightarrow> nat \<Rightarrow>
   (place list list \<times> nat) option" where
  "servedQueries up [] n = Some ([], n)"
| "servedQueries up (q # qs) n =
     Option.bind (servedPages up q None n)
       (\<lambda>(pages, m). Option.bind (servedQueries up qs m)
          (\<lambda>(pages', m'). Some (pages @ pages', m')))"

definition classifiedOf :: "config \<Rightarrow> nat \<Rightarrow> place list \<Rightarrow> place list \<Rightarrow> bool" where
  "classifiedOf cfg stored cl page =
     (take (length cl) page = cl \<and>
      (cl \<noteq> page \<longrightarrow>
         MAX_CLINICS_PER_STATE cfg \<noteq> 0 \<and> MAX_CLINICS_PER_STATE cfg \<le> stored))"

text \<open>
  The locals of \<open>collectState\<close> hold the first-seen clinics of the places classified so
  far: \<open>clinics\<close> is the first candidate of each identifier, \<open>seen\<close> the identifiers of the
  candidates.
\<close>

definition colOf :: "place list \<Rightarrow> collecting \<Rightarrow> bool" where
  "colOf tr c =
     (clinics c = firstSeen s_place_id (map toClinic (filter candidate tr)) \<and>
      seen c = {i. \<exists>p \<in> set tr. candidate p \<and> p_id p = Some i})"

text \<open>
  Three places with one identifier (a cafe and two spellings of a practice) and another
  practice, and an upstream with two pages: the first call gets the cafe and the practice
  and a continuation token, every later call the second spelling and the other practice.
\<close>

definition sunCafe :: place where
  "sunCafe = (named ''Sun Cafe'' [''cafe''])\<lparr>p_id := p_id sunDerm\<rparr>"

definition sunDermGroup :: place where
  "sunDermGroup = (named ''Sun Dermatology Group'' [''doctor''])\<lparr>p_id := p_id sunDerm\<rparr>"

definition moonDerm :: place where
  "moonDerm = named ''Moon Dermatology'' [''doctor'']"

definition twoPages :: "nat \<Rightarrow> request \<Rightarrow> exn + response" where
  "twoPages n req =
     (if n = 0
      then Inr \<lparr>status = 200,
                body = Inr \<lparr>places = Some [sunCafe, sunDerm],
                            nextPageToken = Some (js ''page2'')\<rparr>\<rparr>
      else Inr \<lparr>status = 200,
                body = Inr \<lparr>places = Some [sunDermGroup, moonDerm],
                            nextPageToken = None\<rparr>\<rparr>)"

section \<open>The open-now resolver (app/api/clinics/route.ts)\<close>

subsection \<open>Regular expressions with backtracking\<close>

text \<open>
  A matcher takes a state, the rest of the input and the capture groups so far, and
  returns every state in which a match of it can end, in the order in which the
  backtracking of JavaScript tries them: the first element is the match JavaScript
  reports. Greedy quantifiers try the longer match first.
\<close>

type_synonym mstate = "jsstring \<times> (nat \<rightharpoonup> jsstring)"

type_synonym matcher = "mstate \<Rightarrow> mstate list"

text \<open>One code unit of a class.\<close>

definition cls :: "(nat \<Rightarrow> bool) \<Rightarrow> matcher" where
  "cls P st = (case fst st of [] \<Rightarrow> [] | x # xs \<Rightarrow> if P x then [(xs, snd st)] else [])"

text \<open>Concatenation and alternation.\<close>

definition seq :: "matcher \<Rightarrow> matcher \<Rightarrow> matcher" where
  "seq a b st = concat (map b (a st))"

definition alt :: "matcher \<Rightarrow> matcher \<Rightarrow> matcher" where
  "alt a b st = a st @ b st"

fun seqs :: "matcher list \<Rightarrow> matcher" where
  "seqs [] = (\<lambda>st. [st])"
| "seqs (m # ms) = seq m (seqs ms)"

text \<open>The greedy quantifier \<open>{lo,hi}\<close>: one more iteration first, then stopping here.\<close>

fun rep :: "nat \<Rightarrow> nat \<Rightarrow> matcher \<Rightarrow> matcher" where
  "rep lo 0 m st = (if lo = 0 then [st] else [])"
| "rep lo (Suc hi) m st =
     concat (map (rep (lo - 1) hi m) (m st)) @ (if lo = 0 then [st] else [])"

text \<open>
  The greedy \<open>*\<close>. An iteration that consumes nothing is rejected, as in JavaScript, so
  there are at most as many iterations as code units left.
\<close>

definition progress :: "matcher \<Rightarrow> matcher" where
  "progress m st = filter (\<lambda>st'. length (fst st') < length (fst st)) (m st)"

definition star :: "matcher \<Rightarrow> matcher" where
  "star m st = rep 0 (length (fst st)) (progress m) st"

text \<open>A capture group records what its body consumed.\<close>

definition group :: "nat \<Rightarrow> matcher \<Rightarrow> matcher" where
  "group k m st =
     map (\<lambda>st'. (fst st', (snd st')(k \<mapsto> take (length (fst st) - length (fst st')) (fst st))))
       (m st)"

text \<open>\<open>String.prototype.match\<close> without the \<open>g\<close> flag: the first start position, from the left,
  at which the expression matches, and the groups of the first match there.\<close>

fun search :: "matcher \<Rightarrow> jsstring \<Rightarrow> (nat \<rightharpoonup> jsstring) option" where
  "search m [] = (case m ([], Map.empty) of [] \<Rightarrow> None | st # _ \<Rightarrow> Some (snd st))"
| "search m (x # xs) =
     (case m (x # xs, Map.empty) of [] \<Rightarrow> search m xs | st # _ \<Rightarrow> Some (snd st))"

text \<open>
  The classes of the expression: \<open>\d\<close>, \<open>\s\<close> (the white space and line terminators of
  JavaScript), the three dashes (hyphen, en dash U+2013, em dash U+2014), and a letter under
  the \<open>i\<close> flag, which matches its upper and lower case.
\<close>

definition digit :: "nat \<Rightarrow> bool" where
  "digit c = (48 \<le> c \<and> c \<le> 57)"

definition space :: "nat \<Rightarrow> bool" where
  "space c =
     (List.member [9, 10, 11, 12, 13, 32, 160, 5760, 8232, 8233, 8239, 8287, 12288, 65279] c \<or>
      (8192 \<le> c \<and> c \<le> 8202))"

definition dash :: "nat \<Rightarrow> bool" where
  "dash c = (c = 45 \<or> c = 8211 \<or> c = 8212)"

definition letter_i :: "nat \<Rightarrow> nat \<Rightarrow> bool" where
  "letter_i u c = (upperUnit c = u)"

definition AM_or_PM :: matcher where
  "AM_or_PM = alt (seq (cls (letter_i 65)) (cls (letter_i 77)))
                  (seq (cls (letter_i 80)) (cls (letter_i 77)))"

text \<open>
  The expression \<^verbatim>\<open>/(\d{1,2}):(\d{2})\s*(AM|PM)\s*[D]\s*(\d{1,2}):(\d{2})\s*(AM|PM)/i\<close>,
  where \<^verbatim>\<open>[D]\<close> is the class of the three dashes.
\<close>

definition timeRegex :: matcher where
  "timeRegex =
     seqs [group 1 (rep 1 2 (cls digit)), cls (\<lambda>c. c = 58), group 2 (rep 2 2 (cls digit)),
           star (cls space), group 3 AM_or_PM,
           star (cls space), cls dash, star (cls space),
           group 4 (rep 1 2 (cls digit)), cls (\<lambda>c. c = 58), group 5 (rep 2 2 (cls digit)),
           star (cls space), group 6 AM_or_PM]"

subsection \<open>The computation\<close>

text \<open>
  \<open>parseInt\<close> on a captured group. The groups it is applied to are one or two decimal
  digits, so it is the decimal value of the leading digits.
\<close>

definition parseInt :: "jsstring \<Rightarrow> nat" where
  "parseInt s = foldl (\<lambda>a c. 10 * a + (c - 48)) 0 (takeWhile digit s)"

text \<open>
  What \<open>Intl.DateTimeFormat\<close> reports for the current instant in a time zone: the name of
  the weekday, the hour and the minute. The clock is a parameter; for a time zone it does
  not know the constructor throws a \<open>RangeError\<close>.
\<close>

record now =
  weekday :: jsstring
  hour :: nat
  minute :: nat

text \<open>
  The conversion of one endpoint, as the source writes it twice (for the opening and for
  the closing time): the two \<open>if\<close> statements one after the other.
\<close>

definition endpoint :: "jsstring \<Rightarrow> jsstring \<Rightarrow> jsstring \<Rightarrow> nat" where
  "endpoint h m period =
     (let t = parseInt h * 60 + parseInt m;
          t = (if toUpperCase period = js ''PM'' \<and> parseInt h \<noteq> 12 then t + 12 * 60 else t);
          t = (if toUpperCase period = js ''AM'' \<and> parseInt h = 12 then parseInt m else t)
      in t)"

text \<open>The body of the \<open>try\<close> block.\<close>

definition calculateOpenNow_try ::
  "(jsstring \<Rightarrow> exn + now) \<Rightarrow> jsstring list \<Rightarrow> jsstring \<Rightarrow> exn + bool" where
  "calculateOpenNow_try clock weekdayText timezone =
     (case clock timezone of
        Inl e \<Rightarrow> Inl e
      | Inr n \<Rightarrow>
          let currentTime = hour n * 60 + minute n in
          (case find (\<lambda>text. startsWith text (weekday n)) weekdayText of
             None \<Rightarrow> Inr False
           | Some todayHours \<Rightarrow>
               if todayHours = [] then Inr False
               else if str_includes (toLowerCase todayHours) (js ''closed'') then Inr False
               else (case search timeRegex todayHours of
                       None \<Rightarrow> Inr False
                     | Some g \<Rightarrow>
                         let openTime = endpoint (orEmpty (g 1)) (orEmpty (g 2)) (orEmpty (g 3));
                             closeTime = endpoint (orEmpty (g 4)) (orEmpty (g 5)) (orEmpty (g 6))
                         in Inr (currentTime \<ge> openTime \<and> currentTime < closeTime))))"

text \<open>\<open>calculateOpenNowFromWeekdayText\<close>: the guard, and the \<open>catch\<close> that returns false.\<close>

definition calculateOpenNowFromWeekdayText ::
  "(jsstring \<Rightarrow> exn + now) \<Rightarrow> jsstring list \<Rightarrow> jsstring \<Rightarrow> bool" where
  "calculateOpenNowFromWeekdayText clock weekdayText timezone =
     (if weekdayText = [] then False
      else case calculateOpenNow_try clock weekdayText timezone of
             Inl e \<Rightarrow> False
           | Inr b \<Rightarrow> b)"

text \<open>
  Minutes since midnight of a time on the 12-hour clock, as the specification words it:
  12 AM is 00:MM, 12 PM is 12:MM, and any other PM hour is twelve hours later.
\<close>

definition clock12 :: "nat \<Rightarrow> nat \<Rightarrow> bool \<Rightarrow> nat" where
  "clock12 h m pm =
     (if h = 12 then (if pm then 12 * 60 + m else m)
      else if pm then (h + 12) * 60 + m else h * 60 + m)"

text \<open>Examples: a clock that shows Monday at a given time, and three weekly lines.\<close>

definition mondayAt :: "nat \<Rightarrow> nat \<Rightarrow> jsstring \<Rightarrow> exn + now" where
  "mondayAt h m tz = Inr \<lparr>weekday = js ''Monday'', hour = h, minute = m\<rparr>"

definition monday9to5 :: jsstring where
  "monday9to5 = js ''Monday: 9:00 AM '' @ [8211] @ js '' 5:00 PM''"

definition monday9to5_note :: jsstring where
  "monday9to5_note = monday9to5 @ js '' (closed on holidays)''"

definition mondayByAppointment :: jsstring where
  "mondayByAppointment = js ''Monday: by appointment''"

section \<open>Grid generation (lib/googlePlaces.ts)\<close>

subsection \<open>JavaScript numbers\<close>

text \<open>
  A JavaScript number is an IEEE 754 double. A finite double is a rational number, and
  every arithmetic operation returns the double nearest to the exact result. The model
  keeps the finite doubles only: an overflow to \<open>Infinity\<close> (beyond \<open>1.8e308\<close>) is out of
  its range, far from any coordinate in degrees.
\<close>

text \<open>
  The exponent of a positive number: the integer \<open>e\<close> with \<open>2^e \<le> x < 2^(e+1)\<close>.
\<close>

function expo :: "rat \<Rightarrow> int" where
  "expo x = (if 2 \<le> x then expo (x / 2) + 1
             else if 0 < x \<and> x < 1 then expo (2 * x) - 1
             else 0)"
  by pat_completeness auto
termination
proof (relation "measure (\<lambda>x. if 1 \<le> x then nat \<lfloor>x\<rfloor> else nat \<lfloor>1 / x\<rfloor> + 1)")
  show "wf (measure (\<lambda>x::rat. if 1 \<le> x then nat \<lfloor>x\<rfloor> else nat \<lfloor>1 / x\<rfloor> + 1))" by simp
next
  fix x :: rat
  assume "2 \<le> x"
  then have "\<lfloor>x / 2\<rfloor> < \<lfloor>x\<rfloor>" by (simp add: floor_less_iff) linarith
  with \<open>2 \<le> x\<close> show "(x / 2, x) \<in> measure (\<lambda>x. if 1 \<le> x then nat \<lfloor>x\<rfloor> else nat \<lfloor>1 / x\<rfloor> + 1)"
    by auto
next
  fix x :: rat
  assume a: "\<not> 2 \<le> x" "0 < x \<and> x < 1"
  show "(2 * x, x) \<in> measure (\<lambda>x. if 1 \<le> x then nat \<lfloor>x\<rfloor> else nat \<lfloor>1 / x\<rfloor> + 1)"
  proof (cases "1 \<le> 2 * x")
    case True
    with a have "\<lfloor>2 * x\<rfloor> = 1" by (simp add: floor_eq_iff)
    moreover from a have "1 \<le> \<lfloor>1 / x\<rfloor>" by (simp add: le_floor_iff)
    ultimately show ?thesis using a True by auto
  next
    case False
    with a have "2 \<le> 1 / x" by (simp add: field_simps)
    then have "\<lfloor>1 / x / 2\<rfloor> < \<lfloor>1 / x\<rfloor>" by (simp add: floor_less_iff) linarith
    moreover have "1 / (2 * x) = 1 / x / 2" by simp
    ultimately have lt: "\<lfloor>1 / (2 * x)\<rfloor> < \<lfloor>1 / x\<rfloor>" by (simp only:)
    from \<open>2 \<le> 1 / x\<close> have "0 < \<lfloor>1 / x\<rfloor>" by (simp add: less_floor_iff)
    with lt False show ?thesis by (simp del: floor_divide_eq_div_numeral)
  qed
qed

declare expo.simps [simp del]

text \<open>A power of two with an integer exponent.\<close>

definition pow2 :: "int \<Rightarrow> rat" where
  "pow2 e = (if 0 \<le> e then 2 ^ nat e else 1 / 2 ^ nat (- e))"

text \<open>The nearest integer, a tie going to the even one.\<close>

definition roundHalfEven :: "rat \<Rightarrow> int" where
  "roundHalfEven q =
     (let f = \<lfloor>q\<rfloor>; r = q - of_int f
      in if r < 1 / 2 then f else if 1 / 2 < r then f + 1 else if even f then f else f + 1)"

text \<open>
  \<open>fl x\<close> is the double nearest to \<open>x\<close>: 53 significant bits, ties to even, and the
  fixed spacing \<open>2^-1074\<close> of the subnormal range.
\<close>

definition fl :: "rat \<Rightarrow> rat" where
  "fl x =
     (if x = 0 then 0
      else let e = max (expo \<bar>x\<bar> - 52) (- 1074)
           in sgn x * of_int (roundHalfEven (\<bar>x\<bar> / pow2 e)) * pow2 e)"

text \<open>
  \<open>Math.round\<close> (the nearest integer, a tie going up) and \<open>round6\<close>; \<open>1e6\<close> is a double
  as it stands, the product and the quotient are rounded to doubles.
\<close>

definition mathRound :: "rat \<Rightarrow> int" where
  "mathRound x = \<lfloor>x + 1 / 2\<rfloor>"

definition round6 :: "rat \<Rightarrow> rat" where
  "round6 n = fl (of_int (mathRound (fl (n * 10 ^ 6))) / 10 ^ 6)"

subsection \<open>The grid\<close>

record bounds =
  minLat :: rat
  maxLat :: rat
  minLng :: rat
  maxLng :: rat

text \<open>
  The nested \<open>for\<close> statements of \<open>generateGridPoints\<close>. The literal \<open>1e-9\<close> is the double nearest
  to it. With a step that is zero or negative, or too small to change the loop variable,
  a loop never ends: the result is \<open>None\<close>.
\<close>

partial_function (option) lngLoop ::
  "bounds \<Rightarrow> rat \<Rightarrow> rat \<Rightarrow> rat \<Rightarrow> location list \<Rightarrow> location list option" where
  "lngLoop b stepDeg lt lg points =
     (if lg \<le> fl (maxLng b + fl (1 / 10 ^ 9))
      then lngLoop b stepDeg lt (fl (lg + stepDeg))
             (points @ [\<lparr>lat = round6 lt, lng = round6 lg\<rparr>])
      else Some points)"

partial_function (option) latLoop ::
  "bounds \<Rightarrow> rat \<Rightarrow> rat \<Rightarrow> location list \<Rightarrow> location list option" where
  "latLoop b stepDeg lt points =
     (if lt \<le> fl (maxLat b + fl (1 / 10 ^ 9))
      then Option.bind (lngLoop b stepDeg lt (minLng b) points)
             (\<lambda>points1. latLoop b stepDeg (fl (lt + stepDeg)) points1)
      else Some points)"

declare lngLoop.simps [code] latLoop.simps [code]

definition generateGridPoints :: "bounds \<Rightarrow> rat \<Rightarrow> location list option" where
  "generateGridPoints b stepDeg = latLoop b stepDeg (minLat b) []"

text \<open>\<open>searchDermClinicsGrid\<close>: one nearby search per grid point, through one collector.\<close>

definition searchDermClinicsGrid ::
  "world \<Rightarrow> bounds \<Rightarrow> nat \<Rightarrow> rat \<Rightarrow> net \<Rightarrow> (clinic list \<times> net) option" where
  "searchDermClinicsGrid w b radiusMeters stepDeg s =
     (case generateGridPoints b stepDeg of
        None \<Rightarrow> None
      | Some points \<Rightarrow>
          (case gridPoints w points radiusMeters collected0 s of
             (acc, s1) \<Rightarrow> Some (all_clinics acc, s1)))"

text \<open>
  The doubles that the decimal literals \<open>0.3\<close>, \<open>30.3\<close>, \<open>30.6\<close>, \<open>-89.7\<close> and \<open>-89.4\<close>
  denote, the box of the specification's example, and the grid expected for it.
\<close>

definition step03 :: rat where
  "step03 = fl (3 / 10)"

definition lat30_3 :: rat where
  "lat30_3 = fl (303 / 10)"

definition lat30_6 :: rat where
  "lat30_6 = fl (306 / 10)"

definition lng89_7w :: rat where
  "lng89_7w = fl (- (897 / 10))"

definition lng89_4w :: rat where
  "lng89_4w = fl (- (894 / 10))"

definition exampleBox :: bounds where
  "exampleBox = \<lparr>minLat = 30, maxLat = lat30_6, minLng = - 90, maxLng = lng89_4w\<rparr>"

definition exampleGrid :: "location list" where
  "exampleGrid =
     [\<lparr>lat = 30, lng = - 90\<rparr>, \<lparr>lat = 30, lng = lng89_7w\<rparr>, \<lparr>lat = 30, lng = lng89_4w\<rparr>,
      \<lparr>lat = lat30_3, lng = - 90\<rparr>, \<lparr>lat = lat30_3, lng = lng89_7w\<rparr>,
      \<lparr>lat = lat30_3, lng = lng89_4w\<rparr>,
      \<lparr>lat = lat30_6, lng = - 90\<rparr>, \<lparr>lat = lat30_6, lng = lng89_7w\<rparr>,
      \<lparr>lat = lat30_6, lng = lng89_4w\<rparr>]"

text \<open>A coordinate that is the double nearest to a whole number of millionths.\<close>

definition sixDecimals :: "rat \<Rightarrow> bool" where
  "sixDecimals x = (\<exists>k::int. x = fl (of_int k / 10 ^ 6))"

definition pointRounded :: "location \<Rightarrow> bool" where
  "pointRounded p = (sixDecimals (lat p) \<and> sixDecimals (lng p))"

text \<open>
  The grid as the specification words it. \<open>loopValues v limit stepDeg xs\<close>: \<open>xs\<close> are the
  values a loop variable takes when it starts at \<open>v\<close>, is increased by \<open>stepDeg\<close> (a double
  addition) after each round and the loop goes on as long as the variable is at most
  \<open>limit\<close>. \<open>gridOf\<close> is the Cartesian product of the latitude and longitude steps, row by
  row, each coordinate rounded by \<open>round6\<close>.
\<close>

fun loopValues :: "rat \<Rightarrow> rat \<Rightarrow> rat \<Rightarrow> rat list \<Rightarrow> bool" where
  "loopValues v limit stepDeg [] = (\<not> v \<le> limit)"
| "loopValues v limit stepDeg (x # xs) =
     (v \<le> limit \<and> x = v \<and> loopValues (fl (v + stepDeg)) limit stepDeg xs)"

definition gridOf :: "rat list \<Rightarrow> rat list \<Rightarrow> location list" where
  "gridOf lats lngs =
     concat (map (\<lambda>la. map (\<lambda>lo. \<lparr>lat = round6 la, lng = round6 lo\<rparr>) lngs) lats)"

text \<open>
  A second box, for the step 0.1: latitudes 30.1 to 30.2 and longitudes -89.9 to -89.8.
  In doubles \<open>30.1 + 0.1\<close> is \<open>30.200000000000003\<close>, above the upper bound \<open>30.2\<close>, and
  \<open>-89.9 + 0.1\<close> is \<open>-89.80000000000001\<close>, below \<open>-89.8\<close>.
\<close>

definition step01 :: rat where
  "step01 = fl (1 / 10)"

definition lat30_1 :: rat where
  "lat30_1 = fl (301 / 10)"

definition lat30_2 :: rat where
  "lat30_2 = fl (302 / 10)"

definition lng89_9w :: rat where
  "lng89_9w = fl (- (899 / 10))"

definition lng89_8w :: rat where
  "lng89_8w = fl (- (898 / 10))"

definition guardBox :: bounds where
  "guardBox = \<lparr>minLat = lat30_1, maxLat = lat30_2, minLng = lng89_9w, maxLng = lng89_8w\<rparr>"

definition guardGrid :: "location list" where
  "guardGrid =
     [\<lparr>lat = lat30_1, lng = lng89_9w\<rparr>, \<lparr>lat = lat30_1, lng = lng89_8w\<rparr>,
      \<lparr>lat = lat30_2, lng = lng89_9w\<rparr>, \<lparr>lat = lat30_2, lng = lng89_8w\<rparr>]"

section \<open>Facts about strings\<close>

lemma startsWith_iff: "startsWith s t \<longleftrightarrow> (\<exists>v. s = t @ v)"
  by (induction s t rule: startsWith.induct) auto

lemma str_includes_iff: "str_includes s t \<longleftrightarrow> (\<exists>u v. s = u @ t @ v)"
proof (induction s)
  case Nil
  then show ?case by auto
next
  case (Cons c s)
  show ?case
  proof
    assume "str_includes (c # s) t"
    then consider "startsWith (c # s) t" | "str_includes s t" by auto
    then show "\<exists>u v. c # s = u @ t @ v"
    proof cases
      case 1
      then obtain v where "c # s = t @ v" by (auto simp: startsWith_iff)
      then have "c # s = [] @ t @ v" by simp
      then show ?thesis by blast
    next
      case 2
      with Cons obtain u v where "s = u @ t @ v" by blast
      then have "c # s = (c # u) @ t @ v" by simp
      then show ?thesis by blast
    qed
  next
    assume "\<exists>u v. c # s = u @ t @ v"
    then obtain u v where uv: "c # s = u @ t @ v" by blast
    show "str_includes (c # s) t"
    proof (cases u)
      case Nil
      with uv have "startsWith (c # s) t" by (auto simp: startsWith_iff)
      then show ?thesis by simp
    next
      case (Cons d u')
      with uv have "s = u' @ t @ v" by simp
      with Cons.IH have "str_includes s t" by blast
      then show ?thesis by simp
    qed
  qed
qed

lemma toLowerCase_kelvin: "toLowerCase [83, 8490, 73, 78] = js ''skin''"
  by (simp add: toLowerCase_def lowerUnit_def js_def)

lemma str_includes_longer:
  assumes "str_includes s (t @ w)"
  shows "str_includes s t"
proof -
  from assms obtain u v where "s = u @ (t @ w) @ v" by (auto simp: str_includes_iff)
  then have "s = u @ t @ (w @ v)" by simp
  then show ?thesis unfolding str_includes_iff by blast
qed


section \<open>Classifier: exclusion and core terms\<close>

lemmas classifier_eval =
  js_def named_def searchText_def nameText_def websiteText_def typesText_def
  toLowerCase_def lowerUnit_def orEmpty_def excludeTerms_def coreTerms_def
  relatedTerms_def hasDerm_def hasSkin_def medicalContext_def isStore_def
  spec_excludeTerms_def spec_coreTerms_def

text \<open>
  C3 (as stated, with the specification's exclude list): a candidate whose text contains
  the specification's term \<open>pet\<close> is nevertheless accepted, because the source excludes
  \<open>pet clinic\<close>, not \<open>pet\<close>.
\<close>

theorem spec_exclude_list_counterexample:
  "list_ex (str_includes (searchText (named ''Pet Dermatology Center'' [''health''])))
     spec_excludeTerms \<and>
   acceptByDermHeuristics (named ''Pet Dermatology Center'' [''health''])"
  by (simp add: acceptByDermHeuristics_def classifier_eval)

text \<open>
  C3 (amended to the exclude list of the source): a candidate whose combined lower-case
  name, website and type text contains one of dental, dentist, orthodont (hence also
  orthodontic), oral surgery, veterinary, animal clinic, pet clinic, massage, spa resort,
  day spa, nail salon is rejected, whatever else the text contains.
\<close>

theorem exclude_dominates:
  assumes "list_ex (str_includes (searchText p)) excludeTerms \<or>
           str_includes (searchText p) (js ''orthodontic'')"
  shows "acceptByDermHeuristics p = False"
proof -
  have "js ''orthodontic'' = js ''orthodont'' @ js ''ic''"
    by (simp add: js_def)
  then have "str_includes (searchText p) (js ''orthodontic'') \<Longrightarrow>
             str_includes (searchText p) (js ''orthodont'')"
    using str_includes_longer by metis
  with assms have "list_ex (str_includes (searchText p)) excludeTerms"
    by (auto simp: excludeTerms_def)
  then show ?thesis by (simp add: acceptByDermHeuristics_def)
qed

theorem exclude_dominates_witness:
  "list_ex (str_includes (searchText (named ''Smith Dental & Dermatology Associates'' [])))
     excludeTerms \<and>
   list_ex (str_includes (searchText (named ''Smith Dental & Dermatology Associates'' [])))
     coreTerms \<and>
   acceptByDermHeuristics (named ''Smith Dental & Dermatology Associates'' []) = False"
proof -
  have h: "list_ex (str_includes
             (searchText (named ''Smith Dental & Dermatology Associates'' []))) excludeTerms"
    by (simp add: classifier_eval)
  have c: "list_ex (str_includes
             (searchText (named ''Smith Dental & Dermatology Associates'' []))) coreTerms"
    by (simp add: classifier_eval)
  from h c exclude_dominates [of "named ''Smith Dental & Dermatology Associates'' []"]
  show ?thesis by blast
qed

text \<open>
  C4 (as stated, with \<open>derma\<close> among the core terms): a candidate whose text contains
  \<open>derma\<close> and no exclude term of either list is rejected; the source's core list has
  no \<open>derma\<close>, and the weak-signal rule finds no medical context here.
\<close>

theorem spec_core_list_counterexample:
  "list_ex (str_includes (searchText (named ''Derma Boutique'' []))) spec_coreTerms \<and>
   \<not> list_ex (str_includes (searchText (named ''Derma Boutique'' []))) excludeTerms \<and>
   \<not> list_ex (str_includes (searchText (named ''Derma Boutique'' []))) spec_excludeTerms \<and>
   acceptByDermHeuristics (named ''Derma Boutique'' []) = False"
  by (simp add: acceptByDermHeuristics_def classifier_eval)

text \<open>
  C4 (amended to the core list of the source): a candidate whose text contains no exclude
  term and contains dermatology, dermatologist or dermatologic is accepted, with no
  further corroboration.
\<close>

theorem core_term_accepts:
  assumes "\<not> list_ex (str_includes (searchText p)) excludeTerms"
    and "list_ex (str_includes (searchText p)) coreTerms"
  shows "acceptByDermHeuristics p = True"
  using assms by (simp add: acceptByDermHeuristics_def)

theorem core_term_accepts_witness:
  "\<not> list_ex (str_includes (searchText (named ''Bright Skin Dermatology Center'' [''doctor''])))
       excludeTerms \<and>
   list_ex (str_includes (searchText (named ''Bright Skin Dermatology Center'' [''doctor''])))
     coreTerms \<and>
   acceptByDermHeuristics (named ''Bright Skin Dermatology Center'' [''doctor'']) = True"
proof -
  have h: "\<not> list_ex (str_includes
             (searchText (named ''Bright Skin Dermatology Center'' [''doctor'']))) excludeTerms"
    by (simp add: classifier_eval)
  have c: "list_ex (str_includes
             (searchText (named ''Bright Skin Dermatology Center'' [''doctor'']))) coreTerms"
    by (simp add: classifier_eval)
  from h c core_term_accepts [of "named ''Bright Skin Dermatology Center'' [''doctor'']"]
  show ?thesis by blast
qed

section \<open>The gateway: retry policy\<close>

lemma fetchLoop_char:
  assumes "fetchLoop w req m a s = (r, s')" and "a \<le> m"
  shows "\<exists>n. a + n \<le> m \<and> calls s' = calls s + n + 1 \<and> r = upstream w (calls s + n) req \<and>
          (\<forall>k<n. \<exists>res. upstream w (calls s + k) req = Inr res \<and> \<not> ok res \<and> retryable res) \<and>
          sleeps s' = sleeps s @
            map (\<lambda>k. 500 * 2 ^ (a + k) + random250 w (calls s + k) mod 250) [0..<n] \<and>
          (a + n < m \<longrightarrow> (\<forall>res. r = Inr res \<longrightarrow> ok res \<or> \<not> retryable res))"
  using assms
proof (induction w req m a s arbitrary: r s' rule: fetchLoop.induct)
  case (1 w req m a s)
  show ?case
  proof (cases "upstream w (calls s) req")
    case (Inl e)
    with "1.prems" have "r = Inl e" "s' = s\<lparr>calls := Suc (calls s)\<rparr>" by auto
    with Inl "1.prems" show ?thesis by (intro exI[of _ 0]) auto
  next
    case (Inr res)
    show ?thesis
    proof (cases "\<not> ok res \<and> retryable res \<and> a < m")
      case False
      with Inr "1.prems" have "r = Inr res" "s' = s\<lparr>calls := Suc (calls s)\<rparr>"
        by (auto split: if_splits)
      with Inr False "1.prems" show ?thesis by (intro exI[of _ 0]) auto
    next
      case True
      define s1 where "s1 = s\<lparr>calls := Suc (calls s),
                 sleeps := sleeps s @ [500 * 2 ^ a + random250 w (calls s) mod 250]\<rparr>"
      from True Inr "1.prems" have run: "fetchLoop w req m (a + 1) s1 = (r, s')"
        by (simp add: s1_def)
      from True have "a + 1 \<le> m" by simp
      from "1.IH"[OF Inr _ _ run[unfolded s1_def] this] True
      obtain n where n: "a + 1 + n \<le> m" "calls s' = calls s1 + n + 1"
        "r = upstream w (calls s1 + n) req"
        "\<forall>k<n. \<exists>res. upstream w (calls s1 + k) req = Inr res \<and> \<not> ok res \<and> retryable res"
        "sleeps s' = sleeps s1 @
            map (\<lambda>k. 500 * 2 ^ (a + 1 + k) + random250 w (calls s1 + k) mod 250) [0..<n]"
        "a + 1 + n < m \<longrightarrow> (\<forall>res. r = Inr res \<longrightarrow> ok res \<or> \<not> retryable res)"
        unfolding s1_def by auto
      have c1: "calls s1 = Suc (calls s)" by (simp add: s1_def)
      have all: "\<forall>k<Suc n. \<exists>res. upstream w (calls s + k) req = Inr res \<and> \<not> ok res \<and> retryable res"
      proof (intro allI impI)
        fix k assume "k < Suc n"
        show "\<exists>res. upstream w (calls s + k) req = Inr res \<and> \<not> ok res \<and> retryable res"
        proof (cases k)
          case 0
          with Inr True show ?thesis by simp
        next
          case (Suc j)
          with \<open>k < Suc n\<close> n(4) c1 show ?thesis by simp
        qed
      qed
      have "map (\<lambda>k. 500 * 2 ^ (a + k) + random250 w (calls s + k) mod 250) [0..<Suc n] =
            (500 * 2 ^ a + random250 w (calls s) mod 250) #
            map (\<lambda>k. 500 * 2 ^ (a + 1 + k) + random250 w (calls s1 + k) mod 250) [0..<n]"
        by (simp add: upt_rec[of 0 "Suc n"] map_Suc_upt[symmetric] c1 del: upt_Suc)
      with n(5) have sl: "sleeps s' = sleeps s @
            map (\<lambda>k. 500 * 2 ^ (a + k) + random250 w (calls s + k) mod 250) [0..<Suc n]"
        by (simp add: s1_def)
      show ?thesis
        apply (rule exI[of _ "Suc n"])
        using n(1,2,3,6) c1 all sl by simp
    qed
  qed
qed

text \<open>
  C7: \<open>fetchWithBackoff\<close> with retry bound \<open>m\<close> makes \<open>n + 1\<close> calls for some
  \<open>n \<le> m\<close> and returns what the last call gave (a response is returned, never raised;
  only an exception of \<open>fetch\<close> itself propagates). Every call before the last answered
  429 or 5xx, so a response with any other status ends the loop at once. The sleep before
  retry \<open>k\<close> is \<open>500 * 2 ^ k\<close> ms plus a jitter below 250. If fewer than \<open>m\<close> retries
  were made, the returned response is OK or not retryable; with \<open>n = m\<close> the retries are
  exhausted and the last response is returned as it is.
\<close>

theorem fetchWithBackoff_retry_policy:
  assumes "fetchLoop w req m 0 s = (r, s')"
  shows "\<exists>n\<le>m. calls s' = calls s + n + 1 \<and> r = upstream w (calls s + n) req \<and>
          (\<forall>k<n. \<exists>res. upstream w (calls s + k) req = Inr res \<and> \<not> ok res \<and> retryable res) \<and>
          sleeps s' = sleeps s @
            map (\<lambda>k. 500 * 2 ^ k + random250 w (calls s + k) mod 250) [0..<n] \<and>
          (n < m \<longrightarrow> (\<forall>res. r = Inr res \<longrightarrow> ok res \<or> \<not> retryable res))"
  using fetchLoop_char [OF assms] by simp

theorem fetchWithBackoff_retry_policy_witness:
  "fetchLoop (failing 503) (SearchText (js ''q'') None) 5 0 net0 =
     (Inr \<lparr>status = 503, body = Inl (Thrown [])\<rparr>,
      \<lparr>calls = 6, sleeps = [500, 1000, 2000, 4000, 8000]\<rparr>) \<and>
   fetchLoop (failing 404) (SearchText (js ''q'') None) 5 0 net0 =
     (Inr \<lparr>status = 404, body = Inl (Thrown [])\<rparr>, \<lparr>calls = 1, sleeps = []\<rparr>) \<and>
   (\<exists>n\<le>5. calls \<lparr>calls = 6, sleeps = [500, 1000, 2000, 4000, 8000]\<rparr> =
            calls net0 + n + 1 \<and>
      sleeps \<lparr>calls = 6, sleeps = [500, 1000, 2000, 4000, 8000]\<rparr> =
        sleeps net0 @
        map (\<lambda>k. 500 * 2 ^ k + random250 (failing 503) (calls net0 + k) mod 250) [0..<n])"
proof -
  have run: "fetchLoop (failing 503) (SearchText (js ''q'') None) 5 0 net0 =
     (Inr \<lparr>status = 503, body = Inl (Thrown [])\<rparr>,
      \<lparr>calls = 6, sleeps = [500, 1000, 2000, 4000, 8000]\<rparr>)"
    by (simp add: failing_def net0_def ok_def retryable_def)
  have run404: "fetchLoop (failing 404) (SearchText (js ''q'') None) 5 0 net0 =
     (Inr \<lparr>status = 404, body = Inl (Thrown [])\<rparr>, \<lparr>calls = 1, sleeps = []\<rparr>)"
    by (simp add: failing_def net0_def ok_def retryable_def)
  from fetchWithBackoff_retry_policy [OF run] run run404
  show ?thesis by blast
qed

section \<open>Nearby search: failures collapse to the empty list\<close>

text \<open>
  C10: \<open>searchDermClinics\<close> returns the empty list on every failure path and never
  throws: with no API key (no call is made); when \<open>fetchWithBackoff\<close> throws; when the
  response it returns is still not OK; when reading or transforming the body throws. A
  successful call whose body holds no dermatology place returns the same empty list, so the
  result alone does not tell a failure from an empty answer.
\<close>

theorem searchDermClinics_failure_is_empty:
  "(truthy (GOOGLE_PLACES_API_KEY w) = None \<longrightarrow>
      searchDermClinics w loc radius rk s = ([], s)) \<and>
   (truthy (GOOGLE_PLACES_API_KEY w) \<noteq> None \<longrightarrow>
    (\<forall>e s1. fetchWithBackoff w (SearchNearby loc radius rk) s = (Inl e, s1) \<longrightarrow>
       searchDermClinics w loc radius rk s = ([], s1)) \<and>
    (\<forall>res s1. fetchWithBackoff w (SearchNearby loc radius rk) s = (Inr res, s1) \<longrightarrow>
       (\<not> ok res \<longrightarrow> searchDermClinics w loc radius rk s = ([], s1)) \<and>
       (ok res \<longrightarrow> (\<forall>e. body res = Inl e \<longrightarrow>
          searchDermClinics w loc radius rk s = ([], s1))) \<and>
       (ok res \<longrightarrow> (\<forall>d. body res = Inr d \<longrightarrow> transformPlacesResponse (placesOf d) = [] \<longrightarrow>
          searchDermClinics w loc radius rk s = ([], s1))))) \<and>
   (\<forall>e. fst (searchDermClinics_try w loc radius rk s) = Inl e \<longrightarrow>
      fst (searchDermClinics w loc radius rk s) = [])"
  by (auto simp: searchDermClinics_def searchDermClinics_try_def split: option.splits prod.splits sum.splits)

theorem searchDermClinics_failure_is_empty_witness:
  "searchDermClinics ((failing 503)\<lparr>GOOGLE_PLACES_API_KEY := None\<rparr>) origin 50000 POPULARITY net0 = ([], net0) \<and>
   searchDermClinics (failing 503) origin 50000 POPULARITY net0 =
     ([], \<lparr>calls = 6, sleeps = [500, 1000, 2000, 4000, 8000]\<rparr>) \<and>
   searchDermClinics (failing 404) origin 50000 POPULARITY net0 = ([], \<lparr>calls = 1, sleeps = []\<rparr>) \<and>
   searchDermClinics (answering \<lparr>places = None, nextPageToken = None\<rparr>) origin 50000 POPULARITY net0 =
     ([], \<lparr>calls = 1, sleeps = []\<rparr>)"
proof -
  have k: "truthy (GOOGLE_PLACES_API_KEY ((failing 503)\<lparr>GOOGLE_PLACES_API_KEY := None\<rparr>)) = None"
    by (simp add: truthy_def)
  have f: "fetchWithBackoff (failing 404) (SearchNearby origin 50000 POPULARITY) net0 =
      (Inr \<lparr>status = 404, body = Inl (Thrown [])\<rparr>, \<lparr>calls = 1, sleeps = []\<rparr>)"
    by (simp add: fetchWithBackoff_def failing_def net0_def ok_def retryable_def)
  have f5: "fetchWithBackoff (failing 503) (SearchNearby origin 50000 POPULARITY) net0 =
      (Inr \<lparr>status = 503, body = Inl (Thrown [])\<rparr>, \<lparr>calls = 6, sleeps = [500, 1000, 2000, 4000, 8000]\<rparr>)"
    by (simp add: fetchWithBackoff_def failing_def net0_def ok_def retryable_def)
  have g: "fetchWithBackoff (answering \<lparr>places = None, nextPageToken = None\<rparr>)
       (SearchNearby origin 50000 POPULARITY) net0 =
      (Inr \<lparr>status = 200, body = Inr \<lparr>places = None, nextPageToken = None\<rparr>\<rparr>, \<lparr>calls = 1, sleeps = []\<rparr>)"
    by (simp add: fetchWithBackoff_def answering_def net0_def ok_def retryable_def)
  have k2: "truthy (GOOGLE_PLACES_API_KEY (failing c)) \<noteq> None" for c
    by (simp add: truthy_def failing_def js_def)
  have k3: "truthy (GOOGLE_PLACES_API_KEY (answering d)) \<noteq> None" for d
    by (simp add: truthy_def answering_def js_def)
  have n4: "\<not> ok \<lparr>status = 404, body = Inl (Thrown [])\<rparr>" "\<not> ok \<lparr>status = 503, body = Inl (Thrown [])\<rparr>"
    by (simp_all add: ok_def)
  have o2: "ok \<lparr>status = 200, body = Inr \<lparr>places = None, nextPageToken = None\<rparr>\<rparr>"
    by (simp add: ok_def)
  have e: "transformPlacesResponse (placesOf \<lparr>places = None, nextPageToken = None\<rparr>) = []"
    by (simp add: transformPlacesResponse_def placesOf_def map_filter_simps)
  note t = searchDermClinics_failure_is_empty
  from t[of "(failing 503)\<lparr>GOOGLE_PLACES_API_KEY := None\<rparr>" origin 50000 POPULARITY net0] k
  have 1: "searchDermClinics ((failing 503)\<lparr>GOOGLE_PLACES_API_KEY := None\<rparr>) origin 50000 POPULARITY net0 = ([], net0)"
    by blast
  from t[of "failing 503" origin 50000 POPULARITY net0] k2 f5 n4
  have 2: "searchDermClinics (failing 503) origin 50000 POPULARITY net0 =
     ([], \<lparr>calls = 6, sleeps = [500, 1000, 2000, 4000, 8000]\<rparr>)" by blast
  from t[of "failing 404" origin 50000 POPULARITY net0] k2 f n4
  have 3: "searchDermClinics (failing 404) origin 50000 POPULARITY net0 = ([], \<lparr>calls = 1, sleeps = []\<rparr>)"
    by blast
  from t[of "answering \<lparr>places = None, nextPageToken = None\<rparr>" origin 50000 POPULARITY net0] k3 g o2 e
  have 4: "searchDermClinics (answering \<lparr>places = None, nextPageToken = None\<rparr>) origin 50000 POPULARITY net0 =
     ([], \<lparr>calls = 1, sleeps = []\<rparr>)"
    by (metis response.select_convs(2))
  from 1 2 3 4 show ?thesis by blast
qed

section \<open>The collection script: the request cap\<close>

lemma processPlaces_ignores_MAX_REQUESTS:
  "sameLimits cfg cfg' \<Longrightarrow> processPlaces cfg ps c g = processPlaces cfg' ps c g"
  by (induction ps arbitrary: c g) (auto simp: Let_def sameLimits_def split: option.splits)

lemma pageLoop_ignores_1:
  assumes a: "pageLoop up cfg q tok c g = Some y"
  shows "\<forall>cfg'. sameLimits cfg cfg' \<longrightarrow> pageLoop up cfg' q tok c g = Some y"
proof (rule pageLoop.raw_induct[where P = "\<lambda>up cfg q tok c g y.
         \<forall>cfg'. sameLimits cfg cfg' \<longrightarrow> pageLoop up cfg' q tok c g = Some y", OF _ a],
       intro allI impI)
  fix pl up cfg q tok c g y cfg'
  assume IH: "\<And>up cfg q tok c g y. pl up cfg q tok c g = Some y \<Longrightarrow>
            \<forall>cfg'. sameLimits cfg cfg' \<longrightarrow> pageLoop up cfg' q tok c g = Some y"
    and eq: "(case searchTextOnce up q tok g of
        (Inl e, g1) \<Rightarrow> Some (Inl e, g1)
      | (Inr d, g1) \<Rightarrow>
          (case processPlaces cfg (placesOf d) c g1 of
             (Inl e, g2) \<Rightarrow> Some (Inl e, g2)
           | (Inr c2, g2) \<Rightarrow>
               (case truthy (nextPageToken d) of
                  Some t \<Rightarrow> pl up cfg q (Some t) c2 g2
                | None \<Rightarrow> Some (Inr c2, g2)))) = Some y"
    and same: "sameLimits cfg cfg'"
  note pp = processPlaces_ignores_MAX_REQUESTS[OF same]
  from IH have IH': "pl up cfg q tok c g = Some y \<Longrightarrow> sameLimits cfg cfg' \<Longrightarrow>
      pageLoop up cfg' q tok c g = Some y" for up cfg q tok c g y cfg'
    by blast
  show "pageLoop up cfg' q tok c g = Some y"
    apply (subst pageLoop.simps)
    using eq same
    by (auto simp: pp[symmetric] split: prod.splits sum.splits option.splits intro: IH')
qed

lemma sameLimits_sym: "sameLimits a b \<Longrightarrow> sameLimits b a"
  by (simp add: sameLimits_def)

lemma pageLoop_ignores_MAX_REQUESTS:
  assumes "sameLimits cfg cfg'"
  shows "pageLoop up cfg q tok c g = pageLoop up cfg' q tok c g"
proof (cases "pageLoop up cfg q tok c g")
  case None
  show ?thesis
  proof (cases "pageLoop up cfg' q tok c g")
    case (Some y)
    from pageLoop_ignores_1[OF Some] sameLimits_sym[OF assms] None show ?thesis by simp
  qed (simp add: None)
next
  case (Some y)
  from pageLoop_ignores_1[OF Some] assms Some show ?thesis by simp
qed

lemma queryLoop_ignores_MAX_REQUESTS:
  "sameLimits cfg cfg' \<Longrightarrow> queryLoop up cfg qs c g = queryLoop up cfg' qs c g"
  by (induction qs arbitrary: c g)
     (auto simp: pageLoop_ignores_MAX_REQUESTS[of cfg cfg'] split: option.splits sum.splits prod.splits)

lemma statesLoop_ignores_MAX_REQUESTS:
  "sameLimits cfg cfg' \<Longrightarrow> statesLoop up cfg sts files g = statesLoop up cfg' sts files g"
  by (induction sts arbitrary: files g)
     (auto simp: collectState_def queryLoop_ignores_MAX_REQUESTS[of cfg cfg'] split: option.splits sum.splits prod.splits)

text \<open>
  C2: the script reads \<open>MAX_REQUESTS\<close> and prints it, and \<open>main\<close> looks for the message
  \<open>Daily request cap hit\<close>, but \<open>gate\<close> only counts and nothing ever compares the
  counter with the cap. With the cap set to 1 a run over one state issues three requests;
  in general the run does not depend on \<open>MAX_REQUESTS\<close> at all.
\<close>

theorem request_cap_not_enforced:
  "main emptyPages (uncapped\<lparr>MAX_REQUESTS := 1\<rparr>) [js ''AL''] =
     Some ([\<lparr>f_name = js ''al.json'', f_state = js ''AL'', f_total = 0, f_clinics = []\<rparr>],
           \<lparr>REQUESTS = 3, GLOBAL_CLINICS = 0\<rparr>) \<and>
   main up (cfg\<lparr>MAX_REQUESTS := m\<rparr>) states = main up cfg states"
proof
  show "main emptyPages (uncapped\<lparr>MAX_REQUESTS := 1\<rparr>) [js ''AL''] =
     Some ([\<lparr>f_name = js ''al.json'', f_state = js ''AL'', f_total = 0, f_clinics = []\<rparr>],
           \<lparr>REQUESTS = 3, GLOBAL_CLINICS = 0\<rparr>)"
  by (simp add: main_def collectState_def queries_def pageLoop.simps searchTextOnce_def emptyPages_def
      gate_def ok_def placesOf_def truthy_def js_def toLowerCase_def lowerUnit_def)
  have "sameLimits (cfg\<lparr>MAX_REQUESTS := m\<rparr>) cfg" by (simp add: sameLimits_def)
  then show "main up (cfg\<lparr>MAX_REQUESTS := m\<rparr>) states = main up cfg states"
    by (simp add: main_def statesLoop_ignores_MAX_REQUESTS)
qed

section \<open>The collection script: pagination\<close>

text \<open>
  The library bounds its iterations: one \<open>fetchWithBackoff\<close> makes at most six calls, and
  \<open>searchDermClinicsText\<close>, a total function, makes at most
  \<open>6 * max 1 pageLimitPerQuery\<close> calls for each query.
\<close>

lemma fetchWithBackoff_calls:
  assumes "fetchWithBackoff w req s = (r, s')"
  shows "calls s' \<le> calls s + 6"
proof -
  from assms have "fetchLoop w req 5 0 s = (r, s')" by (simp add: fetchWithBackoff_def)
  from fetchLoop_char[OF this] obtain n where "0 + n \<le> (5::nat)" "calls s' = calls s + n + 1"
    by auto
  then show ?thesis by simp
qed

lemma searchDermClinicsTextPage_calls:
  assumes "searchDermClinicsTextPage w q tok s = (r, s')"
  shows "calls s' \<le> calls s + 6"
proof (cases "truthy (GOOGLE_PLACES_API_KEY w)")
  case None
  with assms show ?thesis by (simp add: searchDermClinicsTextPage_def)
next
  case (Some k)
  obtain r1 s1 where f: "fetchWithBackoff w (SearchText q (truthy tok)) s = (r1, s1)"
    by (cases "fetchWithBackoff w (SearchText q (truthy tok)) s")
  with Some assms have "s' = s1"
    by (auto simp: searchDermClinicsTextPage_def split: sum.splits if_splits)
  with fetchWithBackoff_calls[OF f] show ?thesis by simp
qed

lemma textPages_bounded:
  "textPages w q cap tok fetched acc s = (r, s') \<Longrightarrow>
   calls s' \<le> calls s + 6 * max 1 (cap - fetched)"
proof (induction w q cap tok fetched acc s arbitrary: r s' rule: textPages.induct)
  case (1 w q cap tok fetched acc s)
  obtain r1 s1 where p: "searchDermClinicsTextPage w q tok s = (r1, s1)"
    by (cases "searchDermClinicsTextPage w q tok s")
  note c1 = searchDermClinicsTextPage_calls[OF p]
  show ?case
  proof (cases r1)
    case (Inl e)
    with p "1.prems" have "s' = s1" by simp
    with c1 show ?thesis by simp
  next
    case (Inr d)
    show ?thesis
    proof (cases "truthy (nextPageToken d) \<noteq> None \<and> fetched + 1 < cap")
      case True
      with p Inr "1.prems"
      have run: "textPages w q cap (nextPageToken d) (fetched + 1)
               (addBatch acc (transformPlacesResponse (placesOf d))) s1 = (r, s')"
        by simp
      from "1.IH"[OF p[symmetric] _ True run] Inr
      have "calls s' \<le> calls s1 + 6 * max 1 (cap - (fetched + 1))" by simp
      moreover from True have "max 1 (cap - (fetched + 1)) + 1 \<le> max 1 (cap - fetched)" by auto
      ultimately show ?thesis using c1 by simp
    next
      case False
      with p Inr "1.prems" have "s' = s1" by (auto split: if_splits)
      with c1 show ?thesis by simp
    qed
  qed
qed

lemma textQueries_bounded:
  "textQueries w qs cap acc s = (r, s') \<Longrightarrow>
   calls s' \<le> calls s + 6 * max 1 cap * length qs"
proof (induction qs arbitrary: acc s)
  case Nil
  then show ?case by simp
next
  case (Cons q qs)
  obtain r1 s1 where p: "textPages w q cap None 0 acc s = (r1, s1)"
    by (cases "textPages w q cap None 0 acc s")
  from textPages_bounded[OF p] have c1: "calls s1 \<le> calls s + 6 * max 1 cap" by simp
  show ?case
  proof (cases r1)
    case (Inl e)
    with p Cons.prems have "s' = s1" by (simp del: textPages.simps)
    with c1 show ?thesis by simp
  next
    case (Inr acc1)
    with p Cons.prems have "textQueries w qs cap acc1 s1 = (r, s')"
      by (simp del: textPages.simps)
    from Cons.IH[OF this] c1 show ?thesis by (simp add: algebra_simps)
  qed
qed

lemma searchDermClinicsText_bounded:
  "calls (snd (searchDermClinicsText w qs cap s)) \<le> calls s + 6 * max 1 cap * length qs"
proof -
  obtain r s' where t: "textQueries w qs cap collected0 s = (r, s')"
    by (cases "textQueries w qs cap collected0 s")
  then have "snd (searchDermClinicsText w qs cap s) = s'"
    by (simp add: searchDermClinicsText_def split: sum.splits)
  with textQueries_bounded[OF t] show ?thesis by simp
qed

text \<open>The page loop of the script, against an upstream that always returns a token.\<close>

lemma endless_diverges_aux:
  assumes a: "pageLoop up cfg q tok c g = Some y"
  shows "up = endless \<longrightarrow> False"
proof (rule pageLoop.raw_induct[where P = "\<lambda>up cfg q tok c g y. up = endless \<longrightarrow> False", OF _ a], rule impI)
  fix pl up cfg q tok c g y
  assume IH: "\<And>up cfg q tok c g y. pl up cfg q tok c g = Some y \<Longrightarrow> up = endless \<longrightarrow> False"
    and eq: "(case searchTextOnce up q tok g of
        (Inl e, g1) \<Rightarrow> Some (Inl e, g1)
      | (Inr d, g1) \<Rightarrow>
          (case processPlaces cfg (placesOf d) c g1 of
             (Inl e, g2) \<Rightarrow> Some (Inl e, g2)
           | (Inr c2, g2) \<Rightarrow>
               (case truthy (nextPageToken d) of
                  Some t \<Rightarrow> pl up cfg q (Some t) c2 g2
                | None \<Rightarrow> Some (Inr c2, g2)))) = Some y"
    and up: "up = endless"
  have s: "searchTextOnce endless q tok g =
      (Inr \<lparr>places = Some [], nextPageToken = Some (js ''next'')\<rparr>, gate g)"
    by (simp add: searchTextOnce_def endless_def ok_def)
  have t: "truthy (Some (js ''next'')) = Some (js ''next'')"
    by (simp add: truthy_def js_def)
  from eq up s t
  have "pl endless cfg q (Some (js ''next'')) c (gate g) = Some y"
    by (simp add: placesOf_def)
  with IH show False by blast
qed

lemma pageLoop_endless: "pageLoop endless cfg q tok c g = None"
  using endless_diverges_aux by (cases "pageLoop endless cfg q tok c g") blast+

text \<open>
  C8: the page loop of \<open>collectState\<close> has no page bound (\<open>pagesForQuery\<close> is counted and
  never tested). Against an upstream that returns a continuation token on every page the
  first query never ends, so neither \<open>collectState\<close> nor \<open>main\<close> returns.
\<close>

theorem collectState_unbounded_pagination:
  "collectState endless cfg stateCode g = None \<and> main endless cfg (stateCode # states) = None"
  by (simp add: main_def collectState_def queries_def pageLoop_endless)

section \<open>Deduplication\<close>

lemma addClinic_ok: "collected_ok acc \<Longrightarrow> collected_ok (addClinic acc c)"
  by (auto simp: collected_ok_def addClinic_def)

lemma addBatch_ok: "collected_ok acc \<Longrightarrow> collected_ok (addBatch acc batch)"
  unfolding addBatch_def by (induction batch arbitrary: acc) (auto simp: addClinic_ok)

lemma find_app:
  "find P (xs @ ys) = (case find P xs of None \<Rightarrow> find P ys | Some x \<Rightarrow> Some x)"
  by (induction xs) auto

lemma addClinic_find:
  assumes "collected_ok acc"
  shows "find (\<lambda>x. c_place_id x = i) (all_clinics (addClinic acc c)) =
         (case find (\<lambda>x. c_place_id x = i) (all_clinics acc) of
            Some x \<Rightarrow> Some x
          | None \<Rightarrow> if c_place_id c = i then Some c else None)"
proof (cases "c_place_id c \<in> seen_ids acc")
  case True
  with assms have "c_place_id c = i \<Longrightarrow> find (\<lambda>x. c_place_id x = i) (all_clinics acc) \<noteq> None"
    by (auto simp: collected_ok_def find_None_iff)
  with True show ?thesis by (auto simp: addClinic_def split: option.splits)
next
  case False
  then show ?thesis by (auto simp: addClinic_def find_app split: option.splits)
qed

lemma addBatch_find:
  assumes "collected_ok acc"
  shows "find (\<lambda>x. c_place_id x = i) (all_clinics (addBatch acc batch)) =
         (case find (\<lambda>x. c_place_id x = i) (all_clinics acc) of
            Some x \<Rightarrow> Some x
          | None \<Rightarrow> find (\<lambda>x. c_place_id x = i) batch)"
  using assms unfolding addBatch_def
proof (induction batch arbitrary: acc)
  case Nil
  then show ?case by (simp split: option.splits)
next
  case (Cons c batch)
  from Cons.prems have ok: "collected_ok (addClinic acc c)" by (rule addClinic_ok)
  show ?case
    using Cons.IH[OF ok] addClinic_find[OF Cons.prems, of i c]
    by (auto split: option.splits)
qed

lemma collected0_ok: "collected_ok collected0"
  by (simp add: collected_ok_def collected0_def)

lemma textPages_ok:
  "textPages w q cap tok fetched acc s = (Inr acc', s') \<Longrightarrow> collected_ok acc \<Longrightarrow> collected_ok acc'"
proof (induction w q cap tok fetched acc s arbitrary: acc' s' rule: textPages.induct)
  case (1 w q cap tok fetched acc s)
  show ?case
  proof (cases "searchDermClinicsTextPage w q tok s")
    case (Pair r s1)
    show ?thesis
    proof (cases r)
      case (Inl e)
      with Pair "1.prems" show ?thesis by simp
    next
      case (Inr d)
      let ?acc1 = "addBatch acc (transformPlacesResponse (placesOf d))"
      have ok1: "collected_ok ?acc1" using "1.prems"(2) by (rule addBatch_ok)
      show ?thesis
      proof (cases "truthy (nextPageToken d) \<noteq> None \<and> fetched + 1 < cap")
        case True
        with Pair Inr "1.prems"(1)
        have "textPages w q cap (nextPageToken d) (fetched + 1) ?acc1 s1 = (Inr acc', s')"
          by simp
        from "1.IH"[OF Pair[symmetric] _ True this ok1] Inr show ?thesis by simp
      next
        case False
        with Pair Inr "1.prems"(1) have "acc' = ?acc1" by (auto split: if_splits)
        with ok1 show ?thesis by simp
      qed
    qed
  qed
qed

lemma textQueries_ok:
  "textQueries w qs cap acc s = (Inr acc', s') \<Longrightarrow> collected_ok acc \<Longrightarrow> collected_ok acc'"
proof (induction qs arbitrary: acc s)
  case Nil
  then show ?case by simp
next
  case (Cons q qs)
  from Cons.prems(1) obtain acc1 s1 where
    p: "textPages w q cap None 0 acc s = (Inr acc1, s1)" and
    rest: "textQueries w qs cap acc1 s1 = (Inr acc', s')"
    by (auto simp del: textPages.simps split: prod.splits sum.splits)
  from textPages_ok[OF p Cons.prems(2)] have "collected_ok acc1" .
  from Cons.IH[OF rest this] show ?case .
qed

lemma gridPoints_ok:
  "collected_ok acc \<Longrightarrow> collected_ok (fst (gridPoints w pts r acc s))"
  by (induction pts arbitrary: acc s) (auto split: prod.splits simp: addBatch_ok)

lemma processPlaces_ok:
  "processPlaces cfg ps c g = (Inr c', g') \<Longrightarrow> collecting_ok c \<Longrightarrow>
   collecting_ok c' \<and> (\<exists>new. clinics c' = clinics c @ new)"
proof (induction ps arbitrary: c g)
  case Nil
  then show ?case by simp
next
  case (Cons p ps)
  show ?case
  proof (cases "acceptByDermHeuristics p \<and> (\<exists>i. truthy (p_id p) = Some i \<and> i \<notin> seen c)")
    case False
    with Cons.prems(1) have "processPlaces cfg ps c g = (Inr c', g')"
      by (auto split: option.splits if_splits)
    from Cons.IH[OF this Cons.prems(2)] show ?thesis .
  next
    case True
    then obtain i where i: "truthy (p_id p) = Some i" "i \<notin> seen c" by blast
    then have pid: "p_id p = Some i" by (auto simp: truthy_def split: option.splits if_splits)
    define c1 where "c1 = c\<lparr>seen := insert i (seen c), clinics := clinics c @ [toClinic p]\<rparr>"
    have "Some i \<notin> set (map s_place_id (clinics c))"
      using Cons.prems(2) i(2) by (auto simp: collecting_ok_def list_all_iff split: option.splits)
    with Cons.prems(2) pid have ok1: "collecting_ok c1"
      by (auto simp: collecting_ok_def c1_def toClinic_def list_all_iff split: option.splits)
    show ?thesis
    proof (cases "c' = c1")
      case True
      with ok1 show ?thesis by (simp add: c1_def)
    next
      case False
      with Cons.prems(1) True i
      have "processPlaces cfg ps c1 (g\<lparr>GLOBAL_CLINICS := GLOBAL_CLINICS g + 1\<rparr>) = (Inr c', g')"
        by (auto simp: Let_def c1_def split: if_splits)
      from Cons.IH[OF this ok1] show ?thesis by (auto simp: c1_def)
    qed
  qed
qed

lemma pageLoop_ok:
  assumes a: "pageLoop up cfg q tok c g = Some r"
  shows "\<forall>c' g'. r = (Inr c', g') \<longrightarrow> collecting_ok c \<longrightarrow>
           collecting_ok c' \<and> (\<exists>new. clinics c' = clinics c @ new)"
proof (rule pageLoop.raw_induct[where P = "\<lambda>up cfg q tok c g r.
         \<forall>c' g'. r = (Inr c', g') \<longrightarrow> collecting_ok c \<longrightarrow>
           collecting_ok c' \<and> (\<exists>new. clinics c' = clinics c @ new)", OF _ a],
       intro allI impI)
  fix pl up cfg q tok c g r c' g'
  assume IH: "\<And>up cfg q tok c g r. pl up cfg q tok c g = Some r \<Longrightarrow>
            \<forall>c' g'. r = (Inr c', g') \<longrightarrow> collecting_ok c \<longrightarrow>
              collecting_ok c' \<and> (\<exists>new. clinics c' = clinics c @ new)"
    and eq: "(case searchTextOnce up q tok g of
        (Inl e, g1) \<Rightarrow> Some (Inl e, g1)
      | (Inr d, g1) \<Rightarrow>
          (case processPlaces cfg (placesOf d) c g1 of
             (Inl e, g2) \<Rightarrow> Some (Inl e, g2)
           | (Inr c2, g2) \<Rightarrow>
               (case truthy (nextPageToken d) of
                  Some t \<Rightarrow> pl up cfg q (Some t) c2 g2
                | None \<Rightarrow> Some (Inr c2, g2)))) = Some r"
    and r: "r = (Inr c', g')" and ok: "collecting_ok c"
  from eq r obtain d g1 c2 g2 where
    pp: "processPlaces cfg (placesOf d) c g1 = (Inr c2, g2)" and
    rest: "(case truthy (nextPageToken d) of
                  Some t \<Rightarrow> pl up cfg q (Some t) c2 g2
                | None \<Rightarrow> Some (Inr c2, g2)) = Some (Inr c', g')"
    by (auto split: prod.splits sum.splits)
  from processPlaces_ok[OF pp ok] obtain new where
    ok2: "collecting_ok c2" and app: "clinics c2 = clinics c @ new" by blast
  show "collecting_ok c' \<and> (\<exists>new. clinics c' = clinics c @ new)"
  proof (cases "truthy (nextPageToken d)")
    case None
    with rest ok2 app show ?thesis by auto
  next
    case (Some t)
    with rest have "pl up cfg q (Some t) c2 g2 = Some (Inr c', g')" by simp
    from IH[OF this] ok2 obtain new2 where "collecting_ok c'" "clinics c' = clinics c2 @ new2"
      by blast
    with app show ?thesis by auto
  qed
qed

lemma queryLoop_ok:
  "queryLoop up cfg qs c g = Some (Inr c', g') \<Longrightarrow> collecting_ok c \<Longrightarrow>
   collecting_ok c' \<and> (\<exists>new. clinics c' = clinics c @ new)"
proof (induction qs arbitrary: c g)
  case Nil
  then show ?case by simp
next
  case (Cons q qs)
  from Cons.prems(1) obtain c1 g1 where
    p: "pageLoop up cfg q None c g = Some (Inr c1, g1)" and
    rest: "queryLoop up cfg qs c1 g1 = Some (Inr c', g')"
    by (auto split: option.splits prod.splits sum.splits)
  from pageLoop_ok[OF p] Cons.prems(2) obtain new where
    ok1: "collecting_ok c1" and app: "clinics c1 = clinics c @ new" by blast
  from Cons.IH[OF rest ok1] app show ?case by auto
qed

lemma firstSeen_keys: "key ` set (firstSeen key xs) = key ` set xs"
  by (induction key xs rule: firstSeen.induct) auto

lemma firstSeen_subset: "set (firstSeen key xs) \<subseteq> set xs"
  by (induction key xs rule: firstSeen.induct) auto

lemma firstSeen_distinct: "distinct (map key (firstSeen key xs))"
proof (induction key xs rule: firstSeen.induct)
  case (1 key)
  then show ?case by simp
next
  case (2 key x xs)
  have "key x \<notin> key ` set (firstSeen key (filter (\<lambda>y. key y \<noteq> key x) xs))"
    unfolding firstSeen_keys by auto
  with 2 show ?case by auto
qed

lemma firstSeen_find:
  "find (\<lambda>x. key x = k) (firstSeen key xs) = find (\<lambda>x. key x = k) xs"
proof (induction key xs rule: firstSeen.induct)
  case (1 key)
  then show ?case by simp
next
  case (2 key x xs)
  have "key x \<noteq> k \<Longrightarrow>
    find (\<lambda>x. key x = k) (filter (\<lambda>y. key y \<noteq> key x) xs) = find (\<lambda>x. key x = k) xs"
    by (induction xs) auto
  with 2 show ?case by auto
qed

lemma firstSeen_snoc:
  "firstSeen key (xs @ [x]) =
     (if key x \<in> key ` set xs then firstSeen key xs else firstSeen key xs @ [x])"
proof (induction key xs rule: firstSeen.induct)
  case (1 key)
  then show ?case by simp
next
  case (2 key y ys)
  show ?case
  proof (cases "key x = key y")
    case True
    then show ?thesis by simp
  next
    case False
    with 2 show ?thesis by auto
  qed
qed

lemma firstSeen_filter_append:
  "firstSeen key (xs @ ys) =
     firstSeen key xs @ firstSeen key (filter (\<lambda>y. key y \<notin> key ` set xs) ys)"
proof (induction ys rule: rev_induct)
  case Nil
  then show ?case by simp
next
  case (snoc y ys)
  have "firstSeen key (xs @ ys @ [y]) = firstSeen key ((xs @ ys) @ [y])" by simp
  also have "\<dots> = (if key y \<in> key ` set (xs @ ys) then firstSeen key (xs @ ys)
                    else firstSeen key (xs @ ys) @ [y])"
    by (rule firstSeen_snoc)
  finally show ?case using snoc by (auto simp: firstSeen_snoc)
qed


lemma transformPlacesResponse_append:
  "transformPlacesResponse (a @ b) = transformPlacesResponse a @ transformPlacesResponse b"
  by (simp add: transformPlacesResponse_def map_filter_def)

lemma addClinic_tr: "accOf tr acc \<Longrightarrow> accOf (tr @ [c]) (addClinic acc c)"
  by (auto simp: accOf_def addClinic_def firstSeen_snoc)

lemma addBatch_tr: "accOf tr acc \<Longrightarrow> accOf (tr @ batch) (addBatch acc batch)"
  unfolding addBatch_def
proof (induction batch arbitrary: tr acc)
  case Nil
  then show ?case by simp
next
  case (Cons c batch)
  from Cons.IH[OF addClinic_tr[OF Cons.prems, of c]] show ?case by simp
qed

lemma textPages_tr:
  "textPages w q cap tok fetched acc s = (Inr acc', s') \<Longrightarrow> accOf tr acc \<Longrightarrow>
   accOf (tr @ transformPlacesResponse (fst (readPages w q cap tok fetched s))) acc' \<and>
   snd (readPages w q cap tok fetched s) = s'"
proof (induction w q cap tok fetched acc s arbitrary: acc' s' tr rule: textPages.induct)
  case (1 w q cap tok fetched acc s)
  show ?case
  proof (cases "searchDermClinicsTextPage w q tok s")
    case (Pair r s1)
    show ?thesis
    proof (cases r)
      case (Inl e)
      with Pair "1.prems" show ?thesis by simp
    next
      case (Inr d)
      let ?acc1 = "addBatch acc (transformPlacesResponse (placesOf d))"
      have ok1: "accOf (tr @ transformPlacesResponse (placesOf d)) ?acc1"
        using "1.prems"(2) by (rule addBatch_tr)
      show ?thesis
      proof (cases "truthy (nextPageToken d) \<noteq> None \<and> fetched + 1 < cap")
        case True
        with Pair Inr "1.prems"(1)
        have "textPages w q cap (nextPageToken d) (fetched + 1) ?acc1 s1 = (Inr acc', s')"
          by simp
        from "1.IH"[OF Pair[symmetric] _ True this ok1] Inr
        have "accOf ((tr @ transformPlacesResponse (placesOf d)) @
                 transformPlacesResponse
                   (fst (readPages w q cap (nextPageToken d) (fetched + 1) s1))) acc' \<and>
              snd (readPages w q cap (nextPageToken d) (fetched + 1) s1) = s'"
          by simp
        moreover have "readPages w q cap tok fetched s =
            (placesOf d @ fst (readPages w q cap (nextPageToken d) (fetched + 1) s1),
             snd (readPages w q cap (nextPageToken d) (fetched + 1) s1))"
          using Pair Inr True by (subst readPages.simps) (simp split: prod.splits)
        ultimately show ?thesis by (simp add: transformPlacesResponse_append)
      next
        case False
        with Pair Inr "1.prems"(1) have "acc' = ?acc1" "s' = s1" by (auto split: if_splits)
        moreover have "readPages w q cap tok fetched s = (placesOf d, s1)"
          using Pair Inr False by (subst readPages.simps) auto
        ultimately show ?thesis using ok1 by simp
      qed
    qed
  qed
qed

lemma textQueries_tr:
  "textQueries w qs cap acc s = (Inr acc', s') \<Longrightarrow> accOf tr acc \<Longrightarrow>
   accOf (tr @ transformPlacesResponse (fst (readQueries w qs cap s))) acc' \<and>
   snd (readQueries w qs cap s) = s'"
proof (induction qs arbitrary: acc s tr)
  case Nil
  then show ?case by (simp add: transformPlacesResponse_def map_filter_def)
next
  case (Cons q qs)
  from Cons.prems(1) obtain acc1 s1 where
    p: "textPages w q cap None 0 acc s = (Inr acc1, s1)" and
    rest: "textQueries w qs cap acc1 s1 = (Inr acc', s')"
    by (auto simp del: textPages.simps split: prod.splits sum.splits)
  from textPages_tr[OF p Cons.prems(2)]
  have a1: "accOf (tr @ transformPlacesResponse (fst (readPages w q cap None 0 s))) acc1"
    and s1: "snd (readPages w q cap None 0 s) = s1" by auto
  from Cons.IH[OF rest a1] s1 show ?case
    by (auto simp: transformPlacesResponse_append split: prod.splits)
qed

lemma gridPoints_tr:
  "accOf tr acc \<Longrightarrow> accOf (tr @ gridBatches w pts r s) (fst (gridPoints w pts r acc s))"
proof (induction pts arbitrary: acc s tr)
  case Nil
  then show ?case by simp
next
  case (Cons p pts)
  obtain batch s1 where b: "searchDermClinics w p r DISTANCE s = (batch, s1)"
    by (cases "searchDermClinics w p r DISTANCE s")
  from Cons.IH[OF addBatch_tr[OF Cons.prems, of batch], of s1] b show ?case by simp
qed

lemma accOf_collected0: "accOf [] collected0"
  by (simp add: accOf_def collected0_def)

lemma candidate_id: "candidate p \<Longrightarrow> truthy (p_id p) = Some i \<longleftrightarrow> p_id p = Some i"
  by (auto simp: candidate_def truthy_def split: option.splits if_splits)

lemma truthy_Some: "truthy x = Some i \<Longrightarrow> x = Some i"
  by (auto simp: truthy_def split: option.splits if_splits)

lemma s_place_id_toClinic: "s_place_id (toClinic p) = p_id p"
  by (simp add: toClinic_def)

lemma colOf_skip: "colOf tr c \<Longrightarrow> \<not> candidate p \<Longrightarrow> colOf (tr @ [p]) c"
  by (auto simp: colOf_def)

lemma colOf_seen:
  "colOf tr c \<Longrightarrow> acceptByDermHeuristics p \<Longrightarrow> truthy (p_id p) = Some i \<Longrightarrow> i \<in> seen c \<Longrightarrow>
   colOf (tr @ [p]) c"
proof -
  assume c: "colOf tr c" and a: "acceptByDermHeuristics p" and t: "truthy (p_id p) = Some i"
    and i: "i \<in> seen c"
  from t have pid: "p_id p = Some i" by (rule truthy_Some)
  from a t have cand: "candidate p" by (simp add: candidate_def)
  from c i obtain p' where "p' \<in> set tr" "candidate p'" "p_id p' = Some i"
    by (auto simp: colOf_def)
  with c cand pid show ?thesis
    by (auto simp: colOf_def firstSeen_snoc s_place_id_toClinic image_iff)
qed

lemma colOf_new:
  "colOf tr c \<Longrightarrow> acceptByDermHeuristics p \<Longrightarrow> truthy (p_id p) = Some i \<Longrightarrow> i \<notin> seen c \<Longrightarrow>
   colOf (tr @ [p]) (c\<lparr>seen := insert i (seen c), clinics := clinics c @ [toClinic p]\<rparr>)"
proof -
  assume c: "colOf tr c" and a: "acceptByDermHeuristics p" and t: "truthy (p_id p) = Some i"
    and i: "i \<notin> seen c"
  from t have pid: "p_id p = Some i" by (rule truthy_Some)
  from a t have cand: "candidate p" by (simp add: candidate_def)
  from c i have "\<forall>p' \<in> set tr. candidate p' \<longrightarrow> p_id p' \<noteq> Some i"
    by (auto simp: colOf_def)
  with c cand pid show ?thesis
    by (auto simp: colOf_def firstSeen_snoc s_place_id_toClinic image_iff)
qed

lemma processPlaces_grows:
  "processPlaces cfg ps c g = (Inr c', g') \<Longrightarrow>
   (\<exists>new. clinics c' = clinics c @ new) \<and> seen c \<subseteq> seen c'"
proof (induction ps arbitrary: c g)
  case Nil
  then show ?case by simp
next
  case (Cons p ps)
  show ?case
  proof (cases "acceptByDermHeuristics p \<and> (\<exists>i. truthy (p_id p) = Some i \<and> i \<notin> seen c)")
    case False
    with Cons.prems(1) have "processPlaces cfg ps c g = (Inr c', g')"
      by (auto split: option.splits if_splits)
    from Cons.IH[OF this] show ?thesis .
  next
    case True
    then obtain i where i: "truthy (p_id p) = Some i" "i \<notin> seen c" by blast
    define c1 where "c1 = c\<lparr>seen := insert i (seen c), clinics := clinics c @ [toClinic p]\<rparr>"
    show ?thesis
    proof (cases "c' = c1")
      case True
      then show ?thesis by (auto simp: c1_def)
    next
      case False
      with Cons.prems(1) True i
      have "processPlaces cfg ps c1 (g\<lparr>GLOBAL_CLINICS := GLOBAL_CLINICS g + 1\<rparr>) = (Inr c', g')"
        by (auto simp: Let_def c1_def split: if_splits)
      from Cons.IH[OF this] show ?thesis by (auto simp: c1_def)
    qed
  qed
qed


lemmas script_eval =
  main_def collectState_def queries_def pageLoop.simps searchTextOnce_def onePlace_def
  gate_def ok_def placesOf_def truthy_def toClinic_def uncapped_def sunDerm_def globals0_def
  acceptByDermHeuristics_def classifier_eval storedIds_def

lemma processPlaces_prefix:
  "processPlaces cfg ps c g = (Inr c', g') \<Longrightarrow> colOf tr c \<Longrightarrow>
   \<exists>k\<le>length ps. colOf (tr @ take k ps) c' \<and>
     (k = length ps \<or>
      (MAX_CLINICS_PER_STATE cfg \<noteq> 0 \<and> MAX_CLINICS_PER_STATE cfg \<le> length (clinics c')))"
proof (induction ps arbitrary: tr c g)
  case Nil
  then show ?case by simp
next
  case (Cons p ps)
  have step: "\<exists>k\<le>length (p # ps). colOf (tr @ take k (p # ps)) c' \<and>
     (k = length (p # ps) \<or>
      (MAX_CLINICS_PER_STATE cfg \<noteq> 0 \<and> MAX_CLINICS_PER_STATE cfg \<le> length (clinics c')))"
    if run: "processPlaces cfg ps c1 g1 = (Inr c', g')" and ok: "colOf (tr @ [p]) c1"
    for c1 g1
  proof -
    from Cons.IH[OF run ok] obtain k where k: "k \<le> length ps"
      "colOf ((tr @ [p]) @ take k ps) c'"
      "k = length ps \<or>
        (MAX_CLINICS_PER_STATE cfg \<noteq> 0 \<and> MAX_CLINICS_PER_STATE cfg \<le> length (clinics c'))"
      by blast
    then show ?thesis by (intro exI[of _ "Suc k"]) auto
  qed
  show ?case
  proof (cases "acceptByDermHeuristics p")
    case False
    then have nc: "\<not> candidate p" by (simp add: candidate_def)
    from False Cons.prems(1) have "processPlaces cfg ps c g = (Inr c', g')" by simp
    from step[OF this colOf_skip[OF Cons.prems(2) nc]] show ?thesis .
  next
    case True
    show ?thesis
    proof (cases "truthy (p_id p)")
      case None
      then have nc: "\<not> candidate p" by (simp add: candidate_def)
      from True None Cons.prems(1) have "processPlaces cfg ps c g = (Inr c', g')" by simp
      from step[OF this colOf_skip[OF Cons.prems(2) nc]] show ?thesis .
    next
      case (Some i)
      show ?thesis
      proof (cases "i \<in> seen c")
        case yes: True
        from True Some yes Cons.prems(1) have "processPlaces cfg ps c g = (Inr c', g')" by simp
        from step[OF this colOf_seen[OF Cons.prems(2) True Some yes]] show ?thesis .
      next
        case no: False
        define c1 where "c1 = c\<lparr>seen := insert i (seen c), clinics := clinics c @ [toClinic p]\<rparr>"
        have ok1: "colOf (tr @ [p]) c1"
          unfolding c1_def by (rule colOf_new[OF Cons.prems(2) True Some no])
        show ?thesis
        proof (cases "MAX_CLINICS_PER_STATE cfg \<noteq> 0 \<and>
                      MAX_CLINICS_PER_STATE cfg \<le> length (clinics c1)")
          case cap: True
          with True Some no Cons.prems(1) have "c' = c1"
            by (simp add: Let_def c1_def)
          with ok1 cap show ?thesis by (intro exI[of _ "Suc 0"]) auto
        next
          case nocap: False
          with True Some no Cons.prems(1)
          have "processPlaces cfg ps c1 (g\<lparr>GLOBAL_CLINICS := GLOBAL_CLINICS g + 1\<rparr>) =
                  (Inr c', g')"
            by (auto simp: Let_def c1_def split: if_splits)
          from step[OF this ok1] show ?thesis .
        qed
      qed
    qed
  qed
qed

lemma classifiedOf_mono:
  "classifiedOf cfg n cl page \<Longrightarrow> n \<le> m \<Longrightarrow> classifiedOf cfg m cl page"
  by (auto simp: classifiedOf_def)

lemma processPlaces_requests:
  "processPlaces cfg ps c g = (r, g') \<Longrightarrow> REQUESTS g' = REQUESTS g"
  by (induction ps arbitrary: c g) (auto simp: Let_def split: if_splits option.splits)

lemma processPlaces_classified:
  assumes run: "processPlaces cfg page c g = (Inr c', g')" and ok: "colOf tr c"
  shows "\<exists>cl. classifiedOf cfg (length (clinics c')) cl page \<and> colOf (tr @ cl) c' \<and>
              length (clinics c) \<le> length (clinics c') \<and> REQUESTS g' = REQUESTS g"
proof -
  from processPlaces_prefix[OF run ok] obtain k where k: "k \<le> length page"
    "colOf (tr @ take k page) c'"
    "k = length page \<or>
       (MAX_CLINICS_PER_STATE cfg \<noteq> 0 \<and> MAX_CLINICS_PER_STATE cfg \<le> length (clinics c'))"
    by blast
  have "classifiedOf cfg (length (clinics c')) (take k page) page"
    using k(1,3) by (auto simp: classifiedOf_def min_def)
  moreover from processPlaces_grows[OF run] have "length (clinics c) \<le> length (clinics c')"
    by auto
  ultimately show ?thesis using k(2) processPlaces_requests[OF run] by blast
qed

lemma pageLoop_tr:
  assumes a: "pageLoop up cfg q tok c g = Some r"
  shows "\<forall>tr c' g'. r = (Inr c', g') \<longrightarrow> colOf tr c \<longrightarrow>
            (\<exists>pages parts. servedPages up q tok (REQUESTS g) = Some (pages, REQUESTS g') \<and>
                  list_all2 (classifiedOf cfg (length (clinics c'))) parts pages \<and>
                  colOf (tr @ concat parts) c' \<and> length (clinics c) \<le> length (clinics c'))"
proof (rule pageLoop.raw_induct[where P = "\<lambda>up cfg q tok c g r.
         \<forall>tr c' g'. r = (Inr c', g') \<longrightarrow> colOf tr c \<longrightarrow>
            (\<exists>pages parts. servedPages up q tok (REQUESTS g) = Some (pages, REQUESTS g') \<and>
                  list_all2 (classifiedOf cfg (length (clinics c'))) parts pages \<and>
                  colOf (tr @ concat parts) c' \<and> length (clinics c) \<le> length (clinics c'))",
         OF _ a],
       intro allI impI)
  fix pl up cfg q tok c g r tr c' g'
  assume IH: "\<And>up cfg q tok c g r. pl up cfg q tok c g = Some r \<Longrightarrow>
         \<forall>tr c' g'. r = (Inr c', g') \<longrightarrow> colOf tr c \<longrightarrow>
            (\<exists>pages parts. servedPages up q tok (REQUESTS g) = Some (pages, REQUESTS g') \<and>
                  list_all2 (classifiedOf cfg (length (clinics c'))) parts pages \<and>
                  colOf (tr @ concat parts) c' \<and> length (clinics c) \<le> length (clinics c'))"
    and eq: "(case searchTextOnce up q tok g of
        (Inl e, g1) \<Rightarrow> Some (Inl e, g1)
      | (Inr d, g1) \<Rightarrow>
          (case processPlaces cfg (placesOf d) c g1 of
             (Inl e, g2) \<Rightarrow> Some (Inl e, g2)
           | (Inr c2, g2) \<Rightarrow>
               (case truthy (nextPageToken d) of
                  Some t \<Rightarrow> pl up cfg q (Some t) c2 g2
                | None \<Rightarrow> Some (Inr c2, g2)))) = Some r"
    and r: "r = (Inr c', g')" and ok: "colOf tr c"
  from eq r obtain d g1 c2 g2 where
    st: "searchTextOnce up q tok g = (Inr d, g1)" and
    pp: "processPlaces cfg (placesOf d) c g1 = (Inr c2, g2)" and
    rest: "(case truthy (nextPageToken d) of
                  Some t \<Rightarrow> pl up cfg q (Some t) c2 g2
                | None \<Rightarrow> Some (Inr c2, g2)) = Some (Inr c', g')"
    by (auto split: prod.splits sum.splits)
  from st obtain res where up: "up (REQUESTS g) (SearchText q (truthy tok)) = Inr res"
    and okr: "ok res" and bd: "body res = Inr d" and g1: "REQUESTS g1 = REQUESTS g + 1"
    by (auto simp: searchTextOnce_def gate_def split: sum.splits if_splits)
  from processPlaces_classified[OF pp ok] obtain cl where
    cl: "classifiedOf cfg (length (clinics c2)) cl (placesOf d)" and
    ok2: "colOf (tr @ cl) c2" and len2: "length (clinics c) \<le> length (clinics c2)" and
    g2: "REQUESTS g2 = REQUESTS g1" by blast
  show "\<exists>pages parts. servedPages up q tok (REQUESTS g) = Some (pages, REQUESTS g') \<and>
          list_all2 (classifiedOf cfg (length (clinics c'))) parts pages \<and>
          colOf (tr @ concat parts) c' \<and> length (clinics c) \<le> length (clinics c')"
  proof (cases "truthy (nextPageToken d)")
    case None
    with rest have e: "c' = c2" "g' = g2" by auto
    have "servedPages up q tok (REQUESTS g) = Some ([placesOf d], REQUESTS g + 1)"
      using up okr bd None by (subst servedPages.simps) simp
    with e cl ok2 len2 g1 g2 show ?thesis
      by (intro exI[of _ "[placesOf d]"] exI[of _ "[cl]"]) simp
  next
    case (Some t)
    with rest have "pl up cfg q (Some t) c2 g2 = Some (Inr c', g')" by simp
    from IH[OF this] ok2 obtain pages parts where
      sp: "servedPages up q (Some t) (REQUESTS g2) = Some (pages, REQUESTS g')" and
      all: "list_all2 (classifiedOf cfg (length (clinics c'))) parts pages" and
      c': "colOf ((tr @ cl) @ concat parts) c'" and
      len: "length (clinics c2) \<le> length (clinics c')"
      by blast
    have "servedPages up q tok (REQUESTS g) = Some (placesOf d # pages, REQUESTS g')"
      using up okr bd Some sp g1 g2 by (subst servedPages.simps) simp
    moreover from classifiedOf_mono[OF cl len]
    have "classifiedOf cfg (length (clinics c')) cl (placesOf d)" .
    ultimately show ?thesis using all c' len len2
      by (intro exI[of _ "placesOf d # pages"] exI[of _ "cl # parts"]) simp
  qed
qed

lemma list_all2_classifiedOf_mono:
  "list_all2 (classifiedOf cfg n) parts pages \<Longrightarrow> n \<le> m \<Longrightarrow>
   list_all2 (classifiedOf cfg m) parts pages"
  by (erule list_all2_mono) (rule classifiedOf_mono)

lemma queryLoop_tr:
  "queryLoop up cfg qs c g = Some (Inr c', g') \<Longrightarrow> colOf tr c \<Longrightarrow>
   \<exists>pages parts. servedQueries up qs (REQUESTS g) = Some (pages, REQUESTS g') \<and>
      list_all2 (classifiedOf cfg (length (clinics c'))) parts pages \<and>
      colOf (tr @ concat parts) c' \<and> length (clinics c) \<le> length (clinics c')"
proof (induction qs arbitrary: c g tr)
  case Nil
  then show ?case by simp
next
  case (Cons q qs)
  from Cons.prems(1) obtain c1 g1 where
    p: "pageLoop up cfg q None c g = Some (Inr c1, g1)" and
    rest: "queryLoop up cfg qs c1 g1 = Some (Inr c', g')"
    by (auto split: option.splits prod.splits sum.splits)
  from pageLoop_tr[OF p] Cons.prems(2) obtain pages parts where
    sp: "servedPages up q None (REQUESTS g) = Some (pages, REQUESTS g1)" and
    all: "list_all2 (classifiedOf cfg (length (clinics c1))) parts pages" and
    ok1: "colOf (tr @ concat parts) c1" and len1: "length (clinics c) \<le> length (clinics c1)"
    by blast
  from Cons.IH[OF rest ok1] obtain pages' parts' where
    sq: "servedQueries up qs (REQUESTS g1) = Some (pages', REQUESTS g')" and
    all': "list_all2 (classifiedOf cfg (length (clinics c'))) parts' pages'" and
    ok': "colOf ((tr @ concat parts) @ concat parts') c'" and
    len': "length (clinics c1) \<le> length (clinics c')"
    by blast
  from list_all2_classifiedOf_mono[OF all len'] all'
  have "list_all2 (classifiedOf cfg (length (clinics c'))) (parts @ parts') (pages @ pages')"
    by (rule list_all2_appendI)
  with sp sq ok' len1 len' show ?case
    by (intro exI[of _ "pages @ pages'"] exI[of _ "parts @ parts'"]) simp
qed

lemma classifiedOf_uncapped:
  "MAX_CLINICS_PER_STATE cfg = 0 \<Longrightarrow> list_all2 (classifiedOf cfg n) parts pages \<Longrightarrow> parts = pages"
proof -
  assume "MAX_CLINICS_PER_STATE cfg = 0" and "list_all2 (classifiedOf cfg n) parts pages"
  then have "list_all2 (=) parts pages"
    by (auto elim!: list_all2_mono simp: classifiedOf_def)
  then show ?thesis by (simp add: list_all2_eq)
qed

lemma colOf_empty: "colOf [] \<lparr>seen = {}, clinics = []\<rparr>"
  by (simp add: colOf_def)

lemmas dedup_eval =
  script_eval twoPages_def sunCafe_def sunDermGroup_def moonDerm_def named_def
  servedPages.simps candidate_def

text \<open>
  C1 (as stated, across jurisdictions): \<open>seen\<close> is a local of \<open>collectState\<close>, so a
  practice that the upstream returns for two states is stored once in each state's file:
  one run of \<open>main\<close> over AL and GA stores the same identifier twice.
\<close>

theorem cross_state_duplicate_counterexample:
  "main (onePlace sunDerm) uncapped [js ''AL'', js ''GA''] =
     Some ([\<lparr>f_name = js ''al.json'', f_state = js ''AL'', f_total = 1,
             f_clinics = [toClinic sunDerm]\<rparr>,
            \<lparr>f_name = js ''ga.json'', f_state = js ''GA'', f_total = 1,
             f_clinics = [toClinic sunDerm]\<rparr>],
           \<lparr>REQUESTS = 6, GLOBAL_CLINICS = 2\<rparr>) \<and>
   \<not> distinct (storedIds
     [\<lparr>f_name = js ''al.json'', f_state = js ''AL'', f_total = 1,
       f_clinics = [toClinic sunDerm]\<rparr>,
      \<lparr>f_name = js ''ga.json'', f_state = js ''GA'', f_total = 1,
       f_clinics = [toClinic sunDerm]\<rparr>])"
  by (simp add: script_eval)

text \<open>
  C1 (amended to one call). Within one \<open>collectState\<close> call (all pages of all three
  queries of a state), within one \<open>searchDermClinicsText\<close> call and within one
  \<open>searchDermClinicsGrid\<close> sweep, the stored identifiers are pairwise different, and the
  first candidate of each identifier is the one kept:
  \<^item> the result of \<open>searchDermClinicsText\<close> is \<open>firstSeen\<close> of the normalised places of all
    pages of all queries it read, and the result of the grid sweep is \<open>firstSeen\<close> of the
    batches of all its points;
  \<^item> the clinics \<open>collectState\<close> writes are \<open>firstSeen\<close> of the candidates among the
    places it classified, over all pages of all queries, in the order of the pages; of
    each page the upstream served it classifies a prefix, and the whole page unless the
    per-state cap is reached; with no per-state cap they are \<open>firstSeen\<close> of the candidates
    among all places served;
  \<^item> under every configuration, a place that is rejected, has no identifier or has a seen
    identifier leaves the locals as they are, an accepted place with an unseen identifier
    is appended and its identifier marked, and when the loop over a page ends normally
    the locals hold the first-seen clinics of everything classified so far;
  \<^item> adding a clinic whose identifier is in the seen-set leaves the collector as it is;
    the inlined step is the specification's \<open>add\<close>, whose second call for one identifier
    changes nothing and returns false; a batch added to a collector keeps what is stored
    and adds the first clinic of each new identifier; the script only ever appends;
  \<^item> \<open>firstSeen\<close> has pairwise different keys, takes its elements from the list, and
    holds for each key the first element of the list with that key.
\<close>

theorem dedup_within_one_call:
  "(collectState up cfg stateCode g = Some (Inr f, g1) \<longrightarrow>
      distinct (map s_place_id (f_clinics f))) \<and>
   (searchDermClinicsText w qs cap s = (Inr cs, s1) \<longrightarrow>
      distinct (map c_place_id cs) \<and>
      cs = firstSeen c_place_id (transformPlacesResponse (fst (readQueries w qs cap s)))) \<and>
   (searchDermClinicsGrid w b radius stepDeg s = Some (gs, s2) \<longrightarrow>
      distinct (map c_place_id gs) \<and>
      (\<exists>pts. generateGridPoints b stepDeg = Some pts \<and>
             gs = firstSeen c_place_id (gridBatches w pts radius s))) \<and>
   (c_place_id c \<in> seen_ids acc \<longrightarrow> addClinic acc c = acc) \<and>
   addClinic acc c = snd (spec_add acc c) \<and>
   spec_add (snd (spec_add acc c)) c = (False, snd (spec_add acc c)) \<and>
   (\<not> acceptByDermHeuristics p \<or> truthy (p_id p) = None \<or>
    (truthy (p_id p) = Some i \<and> i \<in> seen col) \<longrightarrow>
      processPlaces cfg (p # ps) col g = processPlaces cfg ps col g) \<and>
   (acceptByDermHeuristics p \<and> truthy (p_id p) = Some i \<and> i \<notin> seen col \<and>
    processPlaces cfg (p # ps) col g = (Inr col', g2) \<longrightarrow>
      (\<exists>rest. clinics col' = clinics col @ toClinic p # rest) \<and> i \<in> seen col') \<and>
   (collected_ok acc \<longrightarrow>
      find (\<lambda>x. c_place_id x = j) (all_clinics (addBatch acc batch)) =
        (case find (\<lambda>x. c_place_id x = j) (all_clinics acc) of
           Some x \<Rightarrow> Some x
         | None \<Rightarrow> find (\<lambda>x. c_place_id x = j) batch)) \<and>
   find (\<lambda>x. c_place_id x = j) (all_clinics (addBatch collected0 batch)) =
     find (\<lambda>x. c_place_id x = j) batch \<and>
   (collecting_ok col \<and> queryLoop up cfg qs' col g = Some (Inr col', g2) \<longrightarrow>
      (\<exists>new. clinics col' = clinics col @ new)) \<and>
   (collectState up cfg stateCode g = Some (Inr f, g1) \<longrightarrow>
      (\<exists>pages parts.
         servedQueries up (queries stateCode) (REQUESTS g) = Some (pages, REQUESTS g1) \<and>
         list_all2 (classifiedOf cfg (length (f_clinics f))) parts pages \<and>
         f_clinics f = firstSeen s_place_id (map toClinic (filter candidate (concat parts))))) \<and>
   (MAX_CLINICS_PER_STATE cfg = 0 \<and> collectState up cfg stateCode g = Some (Inr f, g1) \<longrightarrow>
      (\<exists>pages.
         servedQueries up (queries stateCode) (REQUESTS g) = Some (pages, REQUESTS g1) \<and>
         f_clinics f =
           firstSeen s_place_id (map toClinic (filter candidate (concat pages))))) \<and>
   (colOf tr col \<and> processPlaces cfg page col g = (Inr col', g2) \<longrightarrow>
      (\<exists>k\<le>length page. colOf (tr @ take k page) col' \<and>
         (k = length page \<or>
          (MAX_CLINICS_PER_STATE cfg \<noteq> 0 \<and>
           MAX_CLINICS_PER_STATE cfg \<le> length (clinics col'))))) \<and>
   distinct (map key (firstSeen key xs)) \<and>
   set (firstSeen key xs) \<subseteq> set xs \<and>
   find (\<lambda>x. key x = k) (firstSeen key xs) = find (\<lambda>x. key x = k) xs"
proof (intro conjI impI)
  assume "collectState up cfg stateCode g = Some (Inr f, g1)"
  then obtain c where q: "queryLoop up cfg (queries stateCode) \<lparr>seen = {}, clinics = []\<rparr> g =
      Some (Inr c, g1)" and f: "f_clinics f = clinics c"
    by (auto simp: collectState_def split: option.splits prod.splits sum.splits)
  have "collecting_ok \<lparr>seen = {}, clinics = []\<rparr>" by (simp add: collecting_ok_def)
  from queryLoop_ok[OF q this] f show "distinct (map s_place_id (f_clinics f))"
    by (simp add: collecting_ok_def)
next
  assume a: "searchDermClinicsText w qs cap s = (Inr cs, s1)"
  then obtain acc' where q: "textQueries w qs cap collected0 s = (Inr acc', s1)"
    and cs: "cs = all_clinics acc'"
    by (auto simp: searchDermClinicsText_def split: prod.splits sum.splits)
  from textQueries_ok[OF q collected0_ok] cs show "distinct (map c_place_id cs)"
    by (simp add: collected_ok_def)
  from textQueries_tr[OF q accOf_collected0] cs
  show "cs = firstSeen c_place_id (transformPlacesResponse (fst (readQueries w qs cap s)))"
    by (simp add: accOf_def)
next
  assume "searchDermClinicsGrid w b radius stepDeg s = Some (gs, s2)"
  then obtain pts acc where pts: "generateGridPoints b stepDeg = Some pts"
    and "gridPoints w pts radius collected0 s = (acc, s2)"
    and "gs = all_clinics acc"
    by (auto simp: searchDermClinicsGrid_def split: option.splits prod.splits)
  then have gs: "gs = all_clinics (fst (gridPoints w pts radius collected0 s))" by simp
  with gridPoints_ok[OF collected0_ok, of w pts radius s]
  show "distinct (map c_place_id gs)"
    by (simp add: collected_ok_def)
  from gridPoints_tr[OF accOf_collected0, of w pts radius s] gs
  have "gs = firstSeen c_place_id (gridBatches w pts radius s)"
    by (simp add: accOf_def)
  with pts show "\<exists>pts. generateGridPoints b stepDeg = Some pts \<and>
             gs = firstSeen c_place_id (gridBatches w pts radius s)" by blast
next
  assume "c_place_id c \<in> seen_ids acc"
  then show "addClinic acc c = acc" by (simp add: addClinic_def)
next
  show "addClinic acc c = snd (spec_add acc c)"
    by (simp add: addClinic_def spec_add_def)
next
  show "spec_add (snd (spec_add acc c)) c = (False, snd (spec_add acc c))"
    by (simp add: spec_add_def)
next
  assume "\<not> acceptByDermHeuristics p \<or> truthy (p_id p) = None \<or>
    (truthy (p_id p) = Some i \<and> i \<in> seen col)"
  then show "processPlaces cfg (p # ps) col g = processPlaces cfg ps col g" by auto
next
  assume a: "acceptByDermHeuristics p \<and> truthy (p_id p) = Some i \<and> i \<notin> seen col \<and>
    processPlaces cfg (p # ps) col g = (Inr col', g2)"
  define c1 where "c1 = col\<lparr>seen := insert i (seen col), clinics := clinics col @ [toClinic p]\<rparr>"
  have "col' = c1 \<or>
        processPlaces cfg ps c1 (g\<lparr>GLOBAL_CLINICS := GLOBAL_CLINICS g + 1\<rparr>) = (Inr col', g2)"
    using a by (auto simp: Let_def c1_def split: if_splits)
  then have "(\<exists>rest. clinics col' = clinics col @ toClinic p # rest) \<and> i \<in> seen col'"
  proof
    assume "col' = c1"
    then show ?thesis by (simp add: c1_def)
  next
    assume "processPlaces cfg ps c1 (g\<lparr>GLOBAL_CLINICS := GLOBAL_CLINICS g + 1\<rparr>) =
              (Inr col', g2)"
    from processPlaces_grows[OF this] show ?thesis by (auto simp: c1_def)
  qed
  then show "\<exists>rest. clinics col' = clinics col @ toClinic p # rest" and "i \<in> seen col'"
    by blast+
next
  assume "collected_ok acc"
  then show "find (\<lambda>x. c_place_id x = j) (all_clinics (addBatch acc batch)) =
        (case find (\<lambda>x. c_place_id x = j) (all_clinics acc) of
           Some x \<Rightarrow> Some x
         | None \<Rightarrow> find (\<lambda>x. c_place_id x = j) batch)"
    by (rule addBatch_find)
next
  from addBatch_find[OF collected0_ok, of j batch]
  show "find (\<lambda>x. c_place_id x = j) (all_clinics (addBatch collected0 batch)) =
     find (\<lambda>x. c_place_id x = j) batch"
    by (simp add: collected0_def)
next
  assume "collecting_ok col \<and> queryLoop up cfg qs' col g = Some (Inr col', g2)"
  then show "\<exists>new. clinics col' = clinics col @ new"
    using queryLoop_ok by blast
next
  assume a: "collectState up cfg stateCode g = Some (Inr f, g1)"
  then obtain c where q: "queryLoop up cfg (queries stateCode) \<lparr>seen = {}, clinics = []\<rparr> g =
      Some (Inr c, g1)" and f: "f_clinics f = clinics c"
    by (auto simp: collectState_def split: option.splits prod.splits sum.splits)
  from queryLoop_tr[OF q colOf_empty] f
  show "\<exists>pages parts.
         servedQueries up (queries stateCode) (REQUESTS g) = Some (pages, REQUESTS g1) \<and>
         list_all2 (classifiedOf cfg (length (f_clinics f))) parts pages \<and>
         f_clinics f = firstSeen s_place_id (map toClinic (filter candidate (concat parts)))"
    by (auto simp: colOf_def)
next
  assume a: "MAX_CLINICS_PER_STATE cfg = 0 \<and>
    collectState up cfg stateCode g = Some (Inr f, g1)"
  then obtain c where q: "queryLoop up cfg (queries stateCode) \<lparr>seen = {}, clinics = []\<rparr> g =
      Some (Inr c, g1)" and f: "f_clinics f = clinics c"
    by (auto simp: collectState_def split: option.splits prod.splits sum.splits)
  from queryLoop_tr[OF q colOf_empty] obtain pages parts where
    sq: "servedQueries up (queries stateCode) (REQUESTS g) = Some (pages, REQUESTS g1)" and
    all: "list_all2 (classifiedOf cfg (length (clinics c))) parts pages" and
    ok: "colOf ([] @ concat parts) c" by blast
  from a all have "parts = pages" by (intro classifiedOf_uncapped) auto
  with sq ok f
  show "\<exists>pages.
         servedQueries up (queries stateCode) (REQUESTS g) = Some (pages, REQUESTS g1) \<and>
         f_clinics f = firstSeen s_place_id (map toClinic (filter candidate (concat pages)))"
    by (auto simp: colOf_def)
next
  assume "colOf tr col \<and> processPlaces cfg page col g = (Inr col', g2)"
  then show "\<exists>k\<le>length page. colOf (tr @ take k page) col' \<and>
         (k = length page \<or>
          (MAX_CLINICS_PER_STATE cfg \<noteq> 0 \<and>
           MAX_CLINICS_PER_STATE cfg \<le> length (clinics col')))"
    using processPlaces_prefix by blast
next
  show "distinct (map key (firstSeen key xs))" by (rule firstSeen_distinct)
next
  show "set (firstSeen key xs) \<subseteq> set xs" by (rule firstSeen_subset)
next
  show "find (\<lambda>x. key x = k) (firstSeen key xs) = find (\<lambda>x. key x = k) xs"
    by (rule firstSeen_find)
qed

theorem dedup_within_one_call_witness:
  "collectState twoPages uncapped (js ''AL'') globals0 =
     Some (Inr \<lparr>f_name = js ''al.json'', f_state = js ''AL'', f_total = 2,
                f_clinics = [toClinic sunDerm, toClinic moonDerm]\<rparr>,
           \<lparr>REQUESTS = 4, GLOBAL_CLINICS = 2\<rparr>) \<and>
   servedQueries twoPages (queries (js ''AL'')) 0 =
     Some ([[sunCafe, sunDerm], [sunDermGroup, moonDerm], [sunDermGroup, moonDerm],
            [sunDermGroup, moonDerm]], 4) \<and>
   [toClinic sunDerm, toClinic moonDerm] =
     firstSeen s_place_id (map toClinic (filter candidate
       [sunCafe, sunDerm, sunDermGroup, moonDerm, sunDermGroup, moonDerm,
        sunDermGroup, moonDerm]))"
proof -
  have run: "collectState twoPages uncapped (js ''AL'') globals0 =
     Some (Inr \<lparr>f_name = js ''al.json'', f_state = js ''AL'', f_total = 2,
                f_clinics = [toClinic sunDerm, toClinic moonDerm]\<rparr>,
           \<lparr>REQUESTS = 4, GLOBAL_CLINICS = 2\<rparr>)"
    by (simp add: dedup_eval)
  have served: "servedQueries twoPages (queries (js ''AL'')) 0 =
     Some ([[sunCafe, sunDerm], [sunDermGroup, moonDerm], [sunDermGroup, moonDerm],
            [sunDermGroup, moonDerm]], 4)"
    by (simp add: queries_def servedPages.simps twoPages_def ok_def placesOf_def truthy_def
        js_def)
  have "MAX_CLINICS_PER_STATE uncapped = 0 \<and>
    collectState twoPages uncapped (js ''AL'') globals0 =
     Some (Inr \<lparr>f_name = js ''al.json'', f_state = js ''AL'', f_total = 2,
                f_clinics = [toClinic sunDerm, toClinic moonDerm]\<rparr>,
           \<lparr>REQUESTS = 4, GLOBAL_CLINICS = 2\<rparr>)"
    using run by (simp add: uncapped_def)
  from dedup_within_one_call[THEN conjunct2, THEN conjunct2, THEN conjunct2, THEN conjunct2,
      THEN conjunct2, THEN conjunct2, THEN conjunct2, THEN conjunct2, THEN conjunct2,
      THEN conjunct2, THEN conjunct2, THEN conjunct2, THEN conjunct1, rule_format, OF this]
  have "\<exists>pages. servedQueries twoPages (queries (js ''AL'')) (REQUESTS globals0) =
          Some (pages, REQUESTS \<lparr>REQUESTS = 4, GLOBAL_CLINICS = 2\<rparr>) \<and>
         f_clinics \<lparr>f_name = js ''al.json'', f_state = js ''AL'', f_total = 2,
                f_clinics = [toClinic sunDerm, toClinic moonDerm]\<rparr> =
           firstSeen s_place_id (map toClinic (filter candidate (concat pages)))" .
  with served have "[toClinic sunDerm, toClinic moonDerm] =
     firstSeen s_place_id (map toClinic (filter candidate
       [sunCafe, sunDerm, sunDermGroup, moonDerm, sunDermGroup, moonDerm,
        sunDermGroup, moonDerm]))"
    by (simp add: globals0_def)
  with run served show ?thesis by blast
qed

section \<open>The open-now resolver: what a match captures\<close>

lemma rep_numeral:
  "rep lo (numeral k) m st =
     concat (map (rep (lo - 1) (pred_numeral k) m) (m st)) @ (if lo = 0 then [st] else [])"
  by (simp add: numeral_eq_Suc)

lemmas regex_eval =
  timeRegex_def AM_or_PM_def cls_def seq_def alt_def star_def progress_def group_def
  digit_def space_def dash_def letter_i_def upperUnit_def js_def rep_numeral

lemma search_Some:
  "search m s = Some g \<Longrightarrow> \<exists>t s'. (s', g) \<in> set (m (t, Map.empty))"
proof (induction s)
  case Nil
  show ?case
  proof (cases "m ([], Map.empty)")
    case Nil
    with Nil.prems show ?thesis by simp
  next
    case (Cons st rest)
    with Nil.prems have "g = snd st" by simp
    with Cons have "(fst st, g) \<in> set (m ([], Map.empty))" by simp
    then show ?thesis by blast
  qed
next
  case (Cons x xs)
  show ?case
  proof (cases "m (x # xs, Map.empty)")
    case Nil
    with Cons show ?thesis by simp
  next
    case (Cons st rest)
    with Cons.prems have "g = snd st" by simp
    with Cons have "(fst st, g) \<in> set (m (x # xs, Map.empty))" by simp
    then show ?thesis by blast
  qed
qed

lemma seqE:
  assumes "st'' \<in> set (seq a b st)"
  obtains st' where "st' \<in> set (a st)" "st'' \<in> set (b st')"
  using assms by (auto simp: seq_def)

lemma cls_step:
  "st' \<in> set (cls P st) \<Longrightarrow> snd st' = snd st \<and> (\<exists>x. fst st = x # fst st' \<and> P x)"
  by (cases st) (auto simp: cls_def split: list.splits if_splits)

lemma progress_cls_step:
  "st' \<in> set (progress (cls P) st) \<Longrightarrow> snd st' = snd st \<and> (\<exists>x. fst st = x # fst st' \<and> P x)"
  by (auto simp: progress_def dest: cls_step)

lemma rep_steps:
  assumes step: "\<And>st st'. st' \<in> set (m st) \<Longrightarrow>
                   snd st' = snd st \<and> (\<exists>x. fst st = x # fst st' \<and> P x)"
  shows "st' \<in> set (rep lo hi m st) \<Longrightarrow>
         snd st' = snd st \<and>
         (\<exists>u. fst st = u @ fst st' \<and> list_all P u \<and> lo \<le> length u \<and> length u \<le> hi)"
proof (induction hi arbitrary: lo st)
  case 0
  then show ?case by (auto split: if_splits)
next
  case (Suc hi)
  from Suc.prems consider
    (more) st1 where "st1 \<in> set (m st)" "st' \<in> set (rep (lo - 1) hi m st1)"
    | (stop) "lo = 0" "st' = st"
    by (auto split: if_splits)
  then show ?case
  proof cases
    case more
    from step[OF more(1)] obtain x where
      x: "snd st1 = snd st" "fst st = x # fst st1" "P x" by blast
    from Suc.IH[OF more(2)] obtain u where
      u: "snd st' = snd st1" "fst st1 = u @ fst st'" "list_all P u"
         "lo - 1 \<le> length u" "length u \<le> hi" by blast
    from x u have "fst st = (x # u) @ fst st'" "list_all P (x # u)"
      "lo \<le> length (x # u)" "length (x # u) \<le> Suc hi" by auto
    with x u show ?thesis by metis
  next
    case stop
    then show ?thesis by auto
  qed
qed

lemma star_cls_step:
  "st' \<in> set (star (cls P) st) \<Longrightarrow> snd st' = snd st"
  unfolding star_def using rep_steps[of "progress (cls P)" P] progress_cls_step by blast

lemma group_digits:
  assumes "st' \<in> set (group k (rep lo hi (cls digit)) st)"
  shows "\<exists>u. snd st' = (snd st)(k \<mapsto> u) \<and> list_all digit u \<and> lo \<le> length u \<and> length u \<le> hi"
proof -
  from assms obtain st1 where st1: "st1 \<in> set (rep lo hi (cls digit) st)"
    and st': "st' = (fst st1, (snd st1)(k \<mapsto> take (length (fst st) - length (fst st1)) (fst st)))"
    by (auto simp: group_def)
  from rep_steps[of "cls digit" digit, OF cls_step st1] obtain u where
    u: "snd st1 = snd st" "fst st = u @ fst st1" "list_all digit u" "lo \<le> length u" "length u \<le> hi"
    by blast
  then have "take (length (fst st) - length (fst st1)) (fst st) = u" by simp
  with st' u show ?thesis by auto
qed

lemma group_AM_or_PM:
  assumes "st' \<in> set (group k AM_or_PM st)"
  shows "\<exists>a b. snd st' = (snd st)(k \<mapsto> [a, b]) \<and> (upperUnit a = 65 \<or> upperUnit a = 80) \<and>
           upperUnit b = 77"
proof -
  from assms obtain st1 where st1: "st1 \<in> set (AM_or_PM st)"
    and st': "st' = (fst st1, (snd st1)(k \<mapsto> take (length (fst st) - length (fst st1)) (fst st)))"
    by (auto simp: group_def)
  from st1 obtain st0 u where
    a: "st0 \<in> set (cls (letter_i u) st)" "u = 65 \<or> u = 80" and
    b: "st1 \<in> set (cls (letter_i 77) st0)"
    by (auto simp: AM_or_PM_def alt_def elim!: seqE)
  from cls_step[OF a(1)] cls_step[OF b] obtain x y where
    "snd st1 = snd st" "fst st = x # y # fst st1" "letter_i u x" "letter_i 77 y"
    by auto
  with a(2) st' show ?thesis by (auto simp: letter_i_def)
qed

lemma timeRegex_groups:
  assumes "search timeRegex s = Some g"
  shows "\<exists>h1 m1 a1 b1 h2 m2 a2 b2.
           g = [1 \<mapsto> h1, 2 \<mapsto> m1, 3 \<mapsto> [a1, b1], 4 \<mapsto> h2, 5 \<mapsto> m2, 6 \<mapsto> [a2, b2]] \<and>
           list_all digit h1 \<and> 1 \<le> length h1 \<and> length h1 \<le> 2 \<and>
           list_all digit m1 \<and> length m1 = 2 \<and>
           (upperUnit a1 = 65 \<or> upperUnit a1 = 80) \<and> upperUnit b1 = 77 \<and>
           list_all digit h2 \<and> 1 \<le> length h2 \<and> length h2 \<le> 2 \<and>
           list_all digit m2 \<and> length m2 = 2 \<and>
           (upperUnit a2 = 65 \<or> upperUnit a2 = 80) \<and> upperUnit b2 = 77"
proof -
  from search_Some[OF assms] obtain t s' where "(s', g) \<in> set (timeRegex (t, Map.empty))"
    by blast
  then obtain st1 st2 st3 st4 st5 st6 st7 st8 st9 st10 st11 st12 where
    1: "st1 \<in> set (group 1 (rep 1 2 (cls digit)) (t, Map.empty))" and
    2: "st2 \<in> set (cls (\<lambda>c. c = 58) st1)" and
    3: "st3 \<in> set (group 2 (rep 2 2 (cls digit)) st2)" and
    4: "st4 \<in> set (star (cls space) st3)" and
    5: "st5 \<in> set (group 3 AM_or_PM st4)" and
    6: "st6 \<in> set (star (cls space) st5)" and
    7: "st7 \<in> set (cls dash st6)" and
    8: "st8 \<in> set (star (cls space) st7)" and
    9: "st9 \<in> set (group 4 (rep 1 2 (cls digit)) st8)" and
    10: "st10 \<in> set (cls (\<lambda>c. c = 58) st9)" and
    11: "st11 \<in> set (group 5 (rep 2 2 (cls digit)) st10)" and
    12: "st12 \<in> set (star (cls space) st11)" and
    13: "(s', g) \<in> set (group 6 AM_or_PM st12)"
    unfolding timeRegex_def seqs.simps by (elim seqE) auto
  from group_digits[OF 1] obtain h1 where
    h1: "snd st1 = [1 \<mapsto> h1]" "list_all digit h1" "1 \<le> length h1" "length h1 \<le> 2" by auto
  from cls_step[OF 2] have c2: "snd st2 = snd st1" by simp
  from group_digits[OF 3] obtain m1 where
    m1: "snd st3 = (snd st2)(2 \<mapsto> m1)" "list_all digit m1" "length m1 = 2" by auto
  from star_cls_step[OF 4] have c4: "snd st4 = snd st3" .
  from group_AM_or_PM[OF 5] obtain a1 b1 where
    p1: "snd st5 = (snd st4)(3 \<mapsto> [a1, b1])" "upperUnit a1 = 65 \<or> upperUnit a1 = 80"
        "upperUnit b1 = 77" by blast
  from star_cls_step[OF 6] have c6: "snd st6 = snd st5" .
  from cls_step[OF 7] have c7: "snd st7 = snd st6" by simp
  from star_cls_step[OF 8] have c8: "snd st8 = snd st7" .
  from group_digits[OF 9] obtain h2 where
    h2: "snd st9 = (snd st8)(4 \<mapsto> h2)" "list_all digit h2" "1 \<le> length h2" "length h2 \<le> 2"
    by auto
  from cls_step[OF 10] have c10: "snd st10 = snd st9" by simp
  from group_digits[OF 11] obtain m2 where
    m2: "snd st11 = (snd st10)(5 \<mapsto> m2)" "list_all digit m2" "length m2 = 2" by auto
  from star_cls_step[OF 12] have c12: "snd st12 = snd st11" .
  from group_AM_or_PM[OF 13] obtain a2 b2 where
    p2: "g = (snd st12)(6 \<mapsto> [a2, b2])" "upperUnit a2 = 65 \<or> upperUnit a2 = 80"
        "upperUnit b2 = 77" by auto
  have "g = [1 \<mapsto> h1, 2 \<mapsto> m1, 3 \<mapsto> [a1, b1], 4 \<mapsto> h2, 5 \<mapsto> m2, 6 \<mapsto> [a2, b2]]"
    by (simp add: p2(1) c12 m2(1) c10 h2(1) c8 c7 c6 p1(1) c4 m1(1) c2 h1(1))
  with h1 m1 p1 h2 m2 p2 show ?thesis by blast
qed

lemma endpoint_clock12:
  assumes "upperUnit a = 65 \<or> upperUnit a = 80" and "upperUnit b = 77"
  shows "endpoint h m [a, b] = clock12 (parseInt h) (parseInt m) (toUpperCase [a, b] = js ''PM'')"
  using assms by (auto simp: endpoint_def clock12_def toUpperCase_def js_def Let_def)

section \<open>The open-now resolver: the half-open range and failing closed\<close>

lemmas open_now_eval =
  calculateOpenNowFromWeekdayText_def calculateOpenNow_try_def mondayAt_def

lemma monday9to5_groups:
  "search timeRegex monday9to5 =
   Some [1 \<mapsto> js ''9'', 2 \<mapsto> js ''00'', 3 \<mapsto> js ''AM'',
         4 \<mapsto> js ''5'', 5 \<mapsto> js ''00'', 6 \<mapsto> js ''PM'']"
  by (simp add: monday9to5_def regex_eval)

lemma monday9to5_note_groups:
  "search timeRegex monday9to5_note =
   Some [1 \<mapsto> js ''9'', 2 \<mapsto> js ''00'', 3 \<mapsto> js ''AM'',
         4 \<mapsto> js ''5'', 5 \<mapsto> js ''00'', 6 \<mapsto> js ''PM'']"
  by (simp add: monday9to5_note_def monday9to5_def regex_eval)

lemma mondayByAppointment_no_match: "search timeRegex mondayByAppointment = None"
  by (simp add: mondayByAppointment_def regex_eval)

lemma monday9to5_not_closed: "\<not> str_includes (toLowerCase monday9to5) (js ''closed'')"
  by (simp add: monday9to5_def toLowerCase_def lowerUnit_def js_def)

lemma monday9to5_note_closed: "str_includes (toLowerCase monday9to5_note) (js ''closed'')"
  by (simp add: monday9to5_note_def monday9to5_def toLowerCase_def lowerUnit_def js_def)

lemma monday_lines:
  "startsWith monday9to5 (js ''Monday'')" "startsWith monday9to5_note (js ''Monday'')"
  "startsWith mondayByAppointment (js ''Monday'')"
  by (simp_all add: monday9to5_note_def monday9to5_def mondayByAppointment_def js_def)

text \<open>
  C5 (as stated, for every line that matches the pattern): the check for the word
  \<open>closed\<close> comes before the pattern, so a Monday line that matches the pattern and also
  says \<open>(closed on holidays)\<close> gives false at 10:00, inside the range 9:00 AM to 5:00 PM.
\<close>

theorem closed_word_wins_counterexample:
  "startsWith monday9to5_note (js ''Monday'') \<and>
   search timeRegex monday9to5_note =
     Some [1 \<mapsto> js ''9'', 2 \<mapsto> js ''00'', 3 \<mapsto> js ''AM'',
           4 \<mapsto> js ''5'', 5 \<mapsto> js ''00'', 6 \<mapsto> js ''PM''] \<and>
   clock12 9 0 False \<le> 10 * 60 + 0 \<and> 10 * 60 + 0 < clock12 5 0 True \<and>
   calculateOpenNowFromWeekdayText (mondayAt 10 0) [monday9to5_note] (js ''America/Chicago'')
     = False"
  using monday_lines(2) monday9to5_note_groups monday9to5_note_closed
  by (simp add: open_now_eval clock12_def)

text \<open>
  C5 (amended): take the first line that starts with today's weekday name; if it does not
  contain \<open>closed\<close> and the pattern matches, the result is true exactly when
  \<open>open \<le> t < close\<close>, where \<open>t\<close> is the current hour times 60 plus the minute and the
  endpoints of the first match are converted on the 12-hour clock (12 AM is 00:MM, 12 PM is
  12:MM, another PM hour is twelve hours later). For \<open>Monday: 9:00 AM - 5:00 PM\<close> (with an
  en dash) the result is true at 16:59 and false at 17:00 on a Monday.
\<close>

theorem open_now_half_open_range:
  assumes "clock tz = Inr n"
    and "find (\<lambda>text. startsWith text (weekday n)) weekdayText = Some line"
    and "\<not> str_includes (toLowerCase line) (js ''closed'')"
    and "search timeRegex line = Some g"
  shows "calculateOpenNowFromWeekdayText clock weekdayText tz =
           (clock12 (parseInt (orEmpty (g 1))) (parseInt (orEmpty (g 2)))
                    (toUpperCase (orEmpty (g 3)) = js ''PM'')
              \<le> hour n * 60 + minute n \<and>
            hour n * 60 + minute n <
              clock12 (parseInt (orEmpty (g 4))) (parseInt (orEmpty (g 5)))
                      (toUpperCase (orEmpty (g 6)) = js ''PM''))"
proof -
  from timeRegex_groups[OF assms(4)] obtain h1 m1 a1 b1 h2 m2 a2 b2 where
    g: "g = [1 \<mapsto> h1, 2 \<mapsto> m1, 3 \<mapsto> [a1, b1], 4 \<mapsto> h2, 5 \<mapsto> m2, 6 \<mapsto> [a2, b2]]" and
    p1: "upperUnit a1 = 65 \<or> upperUnit a1 = 80" "upperUnit b1 = 77" and
    p2: "upperUnit a2 = 65 \<or> upperUnit a2 = 80" "upperUnit b2 = 77"
    by blast
  have ne: "weekdayText \<noteq> []" using assms(2) by auto
  have line: "line \<noteq> []"
  proof
    assume "line = []"
    with assms(4) show False by (simp add: regex_eval)
  qed
  have o: "endpoint (orEmpty (g 1)) (orEmpty (g 2)) (orEmpty (g 3)) =
        clock12 (parseInt (orEmpty (g 1))) (parseInt (orEmpty (g 2)))
                (toUpperCase (orEmpty (g 3)) = js ''PM'')"
    using endpoint_clock12[OF p1] by (simp add: g orEmpty_def)
  have c: "endpoint (orEmpty (g 4)) (orEmpty (g 5)) (orEmpty (g 6)) =
        clock12 (parseInt (orEmpty (g 4))) (parseInt (orEmpty (g 5)))
                (toUpperCase (orEmpty (g 6)) = js ''PM'')"
    using endpoint_clock12[OF p2] by (simp add: g orEmpty_def)
  show ?thesis
    using assms ne line
    by (simp add: calculateOpenNowFromWeekdayText_def calculateOpenNow_try_def Let_def o c
             del: One_nat_def)
qed

theorem open_now_half_open_range_witness:
  "calculateOpenNowFromWeekdayText (mondayAt 16 59) [monday9to5] (js ''America/Chicago'') = True \<and>
   calculateOpenNowFromWeekdayText (mondayAt 17 0) [monday9to5] (js ''America/Chicago'') = False"
proof -
  have f: "find (\<lambda>text. startsWith text (weekday \<lparr>weekday = js ''Monday'', hour = h, minute = m\<rparr>))
             [monday9to5] = Some monday9to5" for h m
    using monday_lines(1) by simp
  have c: "mondayAt h m (js ''America/Chicago'') = Inr \<lparr>weekday = js ''Monday'', hour = h, minute = m\<rparr>"
    for h m by (simp add: mondayAt_def)
  have v: "clock12 (parseInt (js ''9'')) (parseInt (js ''00'')) (toUpperCase (js ''AM'') = js ''PM'') = 540"
    "clock12 (parseInt (js ''5'')) (parseInt (js ''00'')) (toUpperCase (js ''PM'') = js ''PM'') = 1020"
    by (simp_all add: clock12_def parseInt_def toUpperCase_def upperUnit_def digit_def js_def)
  from open_now_half_open_range[where clock = "mondayAt 16 59" and tz = "js ''America/Chicago''",
         OF c[of 16 59] f[of 16 59] monday9to5_not_closed monday9to5_groups]
       open_now_half_open_range[where clock = "mondayAt 17 0" and tz = "js ''America/Chicago''",
         OF c[of 17 0] f[of 17 0] monday9to5_not_closed monday9to5_groups] v
  show ?thesis by (simp add: orEmpty_def)
qed

text \<open>
  C6: the computation returns false, and never throws, when the weekly text is empty, when
  the clock (the \<open>Intl\<close> formatter) throws, when no line starts with today's weekday
  name, when the line found contains \<open>closed\<close> in any letter case, and when the pattern
  does not match the line, as for \<open>Monday: by appointment\<close>; any exception of the \<open>try\<close> block
  becomes false.
\<close>

theorem open_now_fails_closed:
  "(weekdayText = [] \<longrightarrow> \<not> calculateOpenNowFromWeekdayText clock weekdayText tz) \<and>
   (\<forall>e. clock tz = Inl e \<longrightarrow> \<not> calculateOpenNowFromWeekdayText clock weekdayText tz) \<and>
   (\<forall>n. clock tz = Inr n \<longrightarrow>
      (find (\<lambda>text. startsWith text (weekday n)) weekdayText = None \<longrightarrow>
         \<not> calculateOpenNowFromWeekdayText clock weekdayText tz) \<and>
      (\<forall>line. find (\<lambda>text. startsWith text (weekday n)) weekdayText = Some line \<longrightarrow>
         (str_includes (toLowerCase line) (js ''closed'') \<longrightarrow>
            \<not> calculateOpenNowFromWeekdayText clock weekdayText tz) \<and>
         (search timeRegex line = None \<longrightarrow>
            \<not> calculateOpenNowFromWeekdayText clock weekdayText tz))) \<and>
   (\<forall>e. calculateOpenNow_try clock weekdayText tz = Inl e \<longrightarrow>
      \<not> calculateOpenNowFromWeekdayText clock weekdayText tz)"
  by (auto simp: calculateOpenNowFromWeekdayText_def calculateOpenNow_try_def Let_def
           split: sum.splits option.splits if_splits)

theorem open_now_fails_closed_witness:
  "calculateOpenNowFromWeekdayText (mondayAt 10 0) [mondayByAppointment] (js ''America/Chicago'')
     = False \<and>
   calculateOpenNowFromWeekdayText (mondayAt 10 0) [js ''Monday: Closed''] (js ''America/Chicago'')
     = False \<and>
   calculateOpenNowFromWeekdayText (mondayAt 10 0) [js ''Tuesday: 9:00 AM - 5:00 PM'']
     (js ''America/Chicago'') = False \<and>
   calculateOpenNowFromWeekdayText (\<lambda>tz. Inl (Thrown (js ''Invalid time zone''))) [monday9to5]
     (js ''Mars/Olympus'') = False"
proof -
  note t = open_now_fails_closed
  have c: "mondayAt 10 0 (js ''America/Chicago'') = Inr \<lparr>weekday = js ''Monday'', hour = 10, minute = 0\<rparr>"
    by (simp add: mondayAt_def)
  have f1: "find (\<lambda>text. startsWith text (weekday \<lparr>weekday = js ''Monday'', hour = 10, minute = 0\<rparr>))
             [mondayByAppointment] = Some mondayByAppointment"
    using monday_lines(3) by simp
  have f2: "find (\<lambda>text. startsWith text (weekday \<lparr>weekday = js ''Monday'', hour = 10, minute = 0\<rparr>))
             [js ''Monday: Closed''] = Some (js ''Monday: Closed'')"
    by (simp add: js_def)
  have c2: "str_includes (toLowerCase (js ''Monday: Closed'')) (js ''closed'')"
    by (simp add: toLowerCase_def lowerUnit_def js_def)
  have f3: "find (\<lambda>text. startsWith text (weekday \<lparr>weekday = js ''Monday'', hour = 10, minute = 0\<rparr>))
             [js ''Tuesday: 9:00 AM - 5:00 PM''] = None"
    by (simp add: js_def)
  from t[of "[mondayByAppointment]" "mondayAt 10 0" "js ''America/Chicago''"] c f1
    mondayByAppointment_no_match
  have 1: "calculateOpenNowFromWeekdayText (mondayAt 10 0) [mondayByAppointment]
             (js ''America/Chicago'') = False" by blast
  from t[of "[js ''Monday: Closed'']" "mondayAt 10 0" "js ''America/Chicago''"] c f2 c2
  have 2: "calculateOpenNowFromWeekdayText (mondayAt 10 0) [js ''Monday: Closed'']
             (js ''America/Chicago'') = False" by blast
  from t[of "[js ''Tuesday: 9:00 AM - 5:00 PM'']" "mondayAt 10 0" "js ''America/Chicago''"] c f3
  have 3: "calculateOpenNowFromWeekdayText (mondayAt 10 0) [js ''Tuesday: 9:00 AM - 5:00 PM'']
     (js ''America/Chicago'') = False" by blast
  from t[of "[monday9to5]" "\<lambda>tz. Inl (Thrown (js ''Invalid time zone''))" "js ''Mars/Olympus''"]
  have 4: "calculateOpenNowFromWeekdayText (\<lambda>tz. Inl (Thrown (js ''Invalid time zone''))) [monday9to5]
     (js ''Mars/Olympus'') = False" by blast
  from 1 2 3 4 show ?thesis by blast
qed

section \<open>Grid generation: doubles\<close>

lemma pow2_pos: "0 < pow2 e"
  by (simp add: pow2_def)

lemma pow2_Suc: "pow2 (e + 1) = 2 * pow2 e"
proof (cases "0 \<le> e")
  case True
  then show ?thesis by (simp add: pow2_def nat_add_distrib)
next
  case False
  then have "nat (- e) = Suc (nat (- (e + 1)))" by simp
  with False show ?thesis by (auto simp: pow2_def)
qed

lemma pow2_pred: "pow2 (e - 1) = pow2 e / 2"
  using pow2_Suc[of "e - 1"] by simp

lemma pow2_mono_aux: "pow2 e \<le> pow2 (e + int k)"
proof (induction k)
  case 0
  then show ?case by simp
next
  case (Suc k)
  have "e + int (Suc k) = (e + int k) + 1" by simp
  then have "pow2 (e + int (Suc k)) = 2 * pow2 (e + int k)"
    using pow2_Suc[of "e + int k"] by (simp only:)
  with Suc pow2_pos[of "e + int k"] show ?case by simp
qed

lemma pow2_mono: "a \<le> b \<Longrightarrow> pow2 a \<le> pow2 b"
  using pow2_mono_aux[of a "nat (b - a)"] by simp

lemma expo_bounds: "0 < x \<Longrightarrow> pow2 (expo x) \<le> x \<and> x < pow2 (expo x + 1)"
proof (induction x rule: expo.induct)
  case (1 x)
  show ?case
  proof (cases "2 \<le> x")
    case True
    with "1.IH"(1) "1.prems" have "pow2 (expo (x / 2)) \<le> x / 2 \<and> x / 2 < pow2 (expo (x / 2) + 1)"
      by simp
    moreover from True have "expo x = expo (x / 2) + 1" by (subst expo.simps) simp
    moreover have "pow2 (expo (x / 2) + 1) = 2 * pow2 (expo (x / 2))"
      "pow2 (expo (x / 2) + 1 + 1) = 2 * pow2 (expo (x / 2) + 1)"
      by (rule pow2_Suc)+
    ultimately show ?thesis by (simp only:) simp
  next
    case False
    show ?thesis
    proof (cases "x < 1")
      case True
      with "1.IH"(2) "1.prems" False
      have "pow2 (expo (2 * x)) \<le> 2 * x \<and> 2 * x < pow2 (expo (2 * x) + 1)" by simp
      moreover from True False "1.prems" have "expo x = expo (2 * x) - 1"
        by (subst expo.simps) simp
      moreover have "pow2 (expo (2 * x) - 1) = pow2 (expo (2 * x)) / 2"
        by (rule pow2_pred)
      moreover have "pow2 (expo (2 * x) - 1 + 1) = pow2 (expo (2 * x))" by simp
      moreover have "pow2 (expo (2 * x) + 1) = 2 * pow2 (expo (2 * x))" by (rule pow2_Suc)
      ultimately show ?thesis by (simp only:) simp
    next
      case x1: False
      with False "1.prems" have "expo x = 0" by (subst expo.simps) simp
      with x1 False show ?thesis by (simp add: pow2_def)
    qed
  qed
qed

lemma expo_unique:
  assumes "0 < x" "pow2 k \<le> x" "x < pow2 (k + 1)"
  shows "expo x = k"
proof (rule ccontr)
  assume ne: "expo x \<noteq> k"
  from expo_bounds[OF assms(1)] have b: "pow2 (expo x) \<le> x" "x < pow2 (expo x + 1)" by auto
  show False
  proof (cases "expo x < k")
    case True
    then have "pow2 (expo x + 1) \<le> pow2 k" by (intro pow2_mono) simp
    with b(2) assms(2) show False by simp
  next
    case False
    with ne have "pow2 (k + 1) \<le> pow2 (expo x)" by (intro pow2_mono) simp
    with b(1) assms(3) show False by simp
  qed
qed

lemma roundHalfEven_near:
  assumes "of_int n - 1 / 2 < q" "q < of_int n + 1 / 2"
  shows "roundHalfEven q = n"
proof -
  have f: "\<lfloor>q\<rfloor> = n \<or> \<lfloor>q\<rfloor> = n - 1"
    using assms by (simp add: floor_eq_iff) linarith
  then show ?thesis
  proof
    assume "\<lfloor>q\<rfloor> = n"
    moreover from this assms have "q - of_int n < 1 / 2" by simp
    ultimately show ?thesis by (simp add: roundHalfEven_def Let_def)
  next
    assume a: "\<lfloor>q\<rfloor> = n - 1"
    with assms have "1 / 2 < q - of_int (n - 1)" by simp
    with a show ?thesis by (simp add: roundHalfEven_def Let_def)
  qed
qed

lemma fl_pos:
  assumes "0 < x" "- 1074 \<le> e" "pow2 (e + 52) \<le> x" "x < pow2 (e + 53)"
    and "(of_int n - 1 / 2) * pow2 e < x" "x < (of_int n + 1 / 2) * pow2 e"
  shows "fl x = of_int n * pow2 e"
proof -
  from expo_unique[OF assms(1), of "e + 52"] assms(3,4) have "expo x = e + 52"
    by (simp add: add.commute add.left_commute)
  with assms(2) have e: "max (expo \<bar>x\<bar> - 52) (- 1074) = e" using assms(1) by simp
  from assms(5,6) pow2_pos[of e] have "of_int n - 1 / 2 < x / pow2 e" "x / pow2 e < of_int n + 1 / 2"
    by (simp_all add: field_simps)
  then have "roundHalfEven (x / pow2 e) = n" by (rule roundHalfEven_near)
  with e assms(1) show ?thesis by (simp add: fl_def Let_def)
qed

lemma fl_neg: "fl (- x) = - fl x"
  by (simp add: fl_def Let_def)

lemma fl_neg_cert:
  assumes "x < 0" "- 1074 \<le> e" "pow2 (e + 52) \<le> - x" "- x < pow2 (e + 53)"
    and "(of_int n - 1 / 2) * pow2 e < - x" "- x < (of_int n + 1 / 2) * pow2 e"
  shows "fl x = - (of_int n * pow2 e)"
  using fl_pos[of "- x" e n] fl_neg[of "- x"] assms by simp

lemma pow2_powi: "pow2 e = 2 powi e"
  by (simp add: pow2_def power_int_def field_simps)

lemma pow2_add: "pow2 (a + b) = pow2 a * pow2 b"
  by (simp add: pow2_powi power_int_add)

lemma pow2_less: "pow2 a < pow2 b \<Longrightarrow> a < b"
  using pow2_mono[of b a] by (cases "a < b") auto

lemma roundHalfEven_error: "\<bar>of_int (roundHalfEven q) - q\<bar> \<le> 1 / 2"
proof -
  have f: "of_int \<lfloor>q\<rfloor> \<le> q" "q < of_int \<lfloor>q\<rfloor> + 1" by linarith+
  consider "q - of_int \<lfloor>q\<rfloor> < 1 / 2" | "1 / 2 < q - of_int \<lfloor>q\<rfloor>"
    | "q - of_int \<lfloor>q\<rfloor> = 1 / 2" by linarith
  then show ?thesis
  proof cases
    case 1
    then have "roundHalfEven q = \<lfloor>q\<rfloor>" by (simp add: roundHalfEven_def Let_def)
    with 1 f show ?thesis by simp
  next
    case 2
    then have "roundHalfEven q = \<lfloor>q\<rfloor> + 1" by (simp add: roundHalfEven_def Let_def)
    with 2 f show ?thesis by simp
  next
    case 3
    then have "roundHalfEven q = \<lfloor>q\<rfloor> \<or> roundHalfEven q = \<lfloor>q\<rfloor> + 1"
      by (simp add: roundHalfEven_def Let_def)
    with 3 show ?thesis by auto
  qed
qed

lemma roundHalfEven_of_int: "roundHalfEven (of_int n) = n"
  by (rule roundHalfEven_near) simp_all

lemma roundHalfEven_mono:
  assumes "q \<le> q'"
  shows "roundHalfEven q \<le> roundHalfEven q'"
proof (cases "\<lfloor>q\<rfloor> = \<lfloor>q'\<rfloor>")
  case True
  with assms show ?thesis by (auto simp: roundHalfEven_def Let_def)
next
  case False
  with assms have lt: "\<lfloor>q\<rfloor> + 1 \<le> \<lfloor>q'\<rfloor>" using floor_mono[OF assms] by linarith
  have "roundHalfEven q \<le> \<lfloor>q\<rfloor> + 1" by (auto simp: roundHalfEven_def Let_def)
  moreover have "\<lfloor>q'\<rfloor> \<le> roundHalfEven q'" by (auto simp: roundHalfEven_def Let_def)
  ultimately show ?thesis using lt by linarith
qed

lemma expo_mono:
  assumes "0 < x" "x \<le> y"
  shows "expo x \<le> expo y"
proof -
  from assms have y: "0 < y" by simp
  from expo_bounds[OF assms(1)] expo_bounds[OF y] assms(2)
  have "pow2 (expo x) < pow2 (expo y + 1)" by simp
  from pow2_less[OF this] show ?thesis by simp
qed

lemma fl_pos_eq:
  "0 < x \<Longrightarrow>
   fl x = of_int (roundHalfEven (x / pow2 (max (expo x - 52) (- 1074)))) *
          pow2 (max (expo x - 52) (- 1074))"
  by (simp add: fl_def Let_def)

lemma fl_nonneg: "0 \<le> x \<Longrightarrow> 0 \<le> fl x"
proof (cases "x = 0")
  case True
  then show ?thesis by (simp add: fl_def)
next
  case False
  assume "0 \<le> x"
  with False have x: "0 < x" by simp
  let ?e = "max (expo x - 52) (- 1074)"
  have "0 \<le> x / pow2 ?e" using x pow2_pos[of ?e] by simp
  then have "roundHalfEven 0 \<le> roundHalfEven (x / pow2 ?e)" by (rule roundHalfEven_mono)
  then have "0 \<le> roundHalfEven (x / pow2 ?e)"
    using roundHalfEven_of_int[of 0] by simp
  with pow2_pos[of ?e] show ?thesis unfolding fl_pos_eq[OF x] by simp
qed

lemma fl_mono_pos:
  assumes x: "0 < x" and xy: "x \<le> y"
  shows "fl x \<le> fl y"
proof -
  from x xy have y: "0 < y" by simp
  let ?ex = "max (expo x - 52) (- 1074)" and ?ey = "max (expo y - 52) (- 1074)"
  have le: "?ex \<le> ?ey" using expo_mono[OF x xy] by simp
  show ?thesis
  proof (cases "?ex = ?ey")
    case True
    have "x / pow2 ?ex \<le> y / pow2 ?ex" using xy pow2_pos[of ?ex] by (simp add: divide_right_mono)
    then have "roundHalfEven (x / pow2 ?ex) \<le> roundHalfEven (y / pow2 ?ex)"
      by (rule roundHalfEven_mono)
    then have "of_int (roundHalfEven (x / pow2 ?ex)) * pow2 ?ex \<le>
               of_int (roundHalfEven (y / pow2 ?ex)) * pow2 ?ex"
      using pow2_pos[of ?ex] by simp
    then show ?thesis unfolding fl_pos_eq[OF x] fl_pos_eq[OF y] True[symmetric] .
  next
    case False
    with le have lt: "?ex < ?ey" using order_le_imp_less_or_eq by blast
    then have ey: "?ey = expo y - 52" by linarith
    have "x < pow2 (expo x + 1)" using expo_bounds[OF x] by simp
    also have "\<dots> \<le> pow2 (?ex + 53)" by (rule pow2_mono) simp
    also have "\<dots> = 2 ^ 53 * pow2 ?ex"
      using pow2_add[of 53 ?ex] by (simp add: pow2_def add.commute)
    finally have "x / pow2 ?ex \<le> of_int (2 ^ 53)"
      using pow2_pos[of ?ex] by (simp add: field_simps)
    then have "roundHalfEven (x / pow2 ?ex) \<le> roundHalfEven (of_int (2 ^ 53))"
      by (rule roundHalfEven_mono)
    then have "roundHalfEven (x / pow2 ?ex) \<le> 2 ^ 53"
      unfolding roundHalfEven_of_int .
    then have "(of_int (roundHalfEven (x / pow2 ?ex)) :: rat) \<le> 2 ^ 53"
      by (metis of_int_le_iff of_int_numeral of_int_power)
    then have a: "fl x \<le> 2 ^ 53 * pow2 ?ex"
      unfolding fl_pos_eq[OF x] using pow2_pos[of ?ex] by simp
    have "2 ^ 52 * pow2 ?ey = pow2 (52 + ?ey)"
      using pow2_add[of 52 ?ey] by (simp add: pow2_def)
    also have "\<dots> = pow2 (expo y)" using ey by simp
    also have "\<dots> \<le> y" using expo_bounds[OF y] by simp
    finally have "of_int (2 ^ 52) \<le> y / pow2 ?ey"
      using pow2_pos[of ?ey] by (simp add: field_simps)
    then have "roundHalfEven (of_int (2 ^ 52)) \<le> roundHalfEven (y / pow2 ?ey)"
      by (rule roundHalfEven_mono)
    then have "2 ^ 52 \<le> roundHalfEven (y / pow2 ?ey)"
      unfolding roundHalfEven_of_int .
    then have "(2 ^ 52 :: rat) \<le> of_int (roundHalfEven (y / pow2 ?ey))"
      by (metis of_int_le_iff of_int_numeral of_int_power)
    then have b: "2 ^ 52 * pow2 ?ey \<le> fl y"
      unfolding fl_pos_eq[OF y] using pow2_pos[of ?ey] by simp
    have "2 ^ 53 * pow2 ?ex = pow2 (?ex + 53)"
      using pow2_add[of 53 ?ex] by (simp add: pow2_def add.commute)
    also have "\<dots> \<le> pow2 (?ey + 52)" using lt by (intro pow2_mono) linarith
    also have "\<dots> = 2 ^ 52 * pow2 ?ey"
      using pow2_add[of 52 ?ey] by (simp add: pow2_def add.commute)
    finally show ?thesis using a b by linarith
  qed
qed

lemma fl_zero: "fl 0 = 0"
  by (simp add: fl_def)

lemma fl_mono:
  assumes "x \<le> y"
  shows "fl x \<le> fl y"
proof -
  consider "0 < x" | "x \<le> 0" "0 \<le> y" | "y < 0" by linarith
  then show ?thesis
  proof cases
    case 1
    then show ?thesis using assms by (rule fl_mono_pos)
  next
    case 2
    from 2(1) have "0 \<le> fl (- x)" by (intro fl_nonneg) simp
    then have "fl x \<le> 0" by (simp add: fl_neg)
    with fl_nonneg[OF 2(2)] show ?thesis by linarith
  next
    case 3
    with assms have "0 < - y" "- y \<le> - x" by auto
    from fl_mono_pos[OF this] show ?thesis by (simp add: fl_neg)
  qed
qed

lemma fl_error:
  "\<bar>fl x - x\<bar> \<le> \<bar>x\<bar> / 2 ^ 53 + pow2 (- 1075)"
proof -
  have pos: "\<bar>fl x - x\<bar> \<le> x / 2 ^ 53 + pow2 (- 1075)" if x: "0 < x" for x
  proof -
    let ?e = "max (expo x - 52) (- 1074)"
    let ?q = "x / pow2 ?e"
    have "fl x - x = (of_int (roundHalfEven ?q) - ?q) * pow2 ?e"
      unfolding fl_pos_eq[OF x] using pow2_pos[of ?e] by (simp add: field_simps)
    then have "\<bar>fl x - x\<bar> = \<bar>of_int (roundHalfEven ?q) - ?q\<bar> * pow2 ?e"
      using pow2_pos[of ?e] by (simp add: abs_mult)
    also have "\<dots> \<le> 1 / 2 * pow2 ?e"
      using roundHalfEven_error[of ?q] pow2_pos[of ?e] by (intro mult_right_mono) auto
    finally have err: "\<bar>fl x - x\<bar> \<le> pow2 ?e / 2" by simp
    have "pow2 ?e / 2 \<le> x / 2 ^ 53 + pow2 (- 1075)"
    proof (cases "expo x - 52 \<le> - 1074")
      case True
      then have "?e = - 1074" by simp
      moreover have "pow2 (- 1074) / 2 = pow2 (- 1075)" using pow2_pred[of "- 1074"] by simp
      ultimately show ?thesis using x by simp
    next
      case False
      then have e: "?e = expo x - 52" by simp
      have "pow2 (expo x) = pow2 52 * pow2 (expo x - 52)"
        using pow2_add[of 52 "expo x - 52"] by simp
      then have "2 ^ 52 * pow2 (expo x - 52) \<le> x"
        using expo_bounds[OF x] by (simp add: pow2_def)
      then have "pow2 (expo x - 52) / 2 \<le> x / 2 ^ 53" by (simp add: field_simps)
      with e pow2_pos[of "- 1075"] show ?thesis by simp
    qed
    with err show ?thesis by linarith
  qed
  consider "0 < x" | "x = 0" | "x < 0" by linarith
  then show ?thesis
  proof cases
    case 1
    from pos[OF 1] 1 show ?thesis by simp
  next
    case 2
    then show ?thesis using pow2_pos[of "- 1075"] by (simp add: fl_zero)
  next
    case 3
    then have "0 < - x" by simp
    from pos[OF this] 3 show ?thesis by (simp add: fl_neg abs_minus_commute)
  qed
qed


lemma mathRound_nearest:
  "of_int (mathRound x) - 1 / 2 \<le> x \<and> x < of_int (mathRound x) + 1 / 2"
  unfolding mathRound_def by linarith

lemma round6_error:
  "\<bar>round6 x - x\<bar> \<le> 1 / (2 * 10 ^ 6) + (\<bar>x\<bar> + 1) / 2 ^ 51"
proof -
  define y where "y = fl (x * 10 ^ 6)"
  define k where "k = mathRound y"
  define z :: rat where "z = of_int k / 10 ^ 6"
  define s where "s = pow2 (- 1075)"
  have s: "0 < s" "s \<le> 1 / 2 ^ 60"
    using pow2_pos[of "- 1075"] pow2_mono[of "- 1075" "- 60"] by (simp_all add: s_def pow2_def)
  have r: "round6 x = fl z" by (simp add: round6_def z_def k_def y_def)
  have "\<bar>y - x * 10 ^ 6\<bar> \<le> \<bar>x * 10 ^ 6\<bar> / 2 ^ 53 + s"
    unfolding y_def s_def by (rule fl_error)
  then have e1: "\<bar>y - x * 10 ^ 6\<bar> \<le> \<bar>x\<bar> * 10 ^ 6 / 2 ^ 53 + s" by (simp add: abs_mult)
  have e2: "\<bar>of_int k - y\<bar> \<le> 1 / 2"
    using mathRound_nearest[of y] unfolding k_def by linarith
  have e3: "\<bar>fl z - z\<bar> \<le> \<bar>z\<bar> / 2 ^ 53 + s"
    unfolding s_def by (rule fl_error)
  have k: "\<bar>of_int k - x * 10 ^ 6\<bar> \<le> 1 / 2 + \<bar>x\<bar> * 10 ^ 6 / 2 ^ 53 + s"
    using e1 e2 by linarith
  have "z - x = (of_int k - x * 10 ^ 6) / 10 ^ 6" by (simp add: z_def field_simps)
  then have "\<bar>z - x\<bar> = \<bar>of_int k - x * 10 ^ 6\<bar> / 10 ^ 6" by (simp only: abs_divide) simp
  also have "\<dots> \<le> (1 / 2 + \<bar>x\<bar> * 10 ^ 6 / 2 ^ 53 + s) / 10 ^ 6"
    using k by (rule divide_right_mono) simp
  finally have "\<bar>z - x\<bar> \<le> (1 / 2 + \<bar>x\<bar> * 10 ^ 6 / 2 ^ 53 + s) / 10 ^ 6" .
  then have e4: "\<bar>z - x\<bar> \<le> 1 / (2 * 10 ^ 6) + \<bar>x\<bar> / 2 ^ 53 + s / 10 ^ 6"
    by (simp add: field_simps)
  then have z: "\<bar>z\<bar> \<le> \<bar>x\<bar> + (1 / (2 * 10 ^ 6) + \<bar>x\<bar> / 2 ^ 53 + s / 10 ^ 6)" by linarith
  have "\<bar>z\<bar> / 2 ^ 53 \<le> (\<bar>x\<bar> + (1 / (2 * 10 ^ 6) + \<bar>x\<bar> / 2 ^ 53 + s / 10 ^ 6)) / 2 ^ 53"
    using z by (simp add: divide_right_mono)
  then have e5: "\<bar>z\<bar> / 2 ^ 53 \<le>
      \<bar>x\<bar> / 2 ^ 53 + 1 / (2 * 10 ^ 6 * 2 ^ 53) + \<bar>x\<bar> / (2 ^ 53 * 2 ^ 53) + s / (10 ^ 6 * 2 ^ 53)"
    by (simp add: field_simps)
  have "\<bar>fl z - x\<bar> \<le> \<bar>fl z - z\<bar> + \<bar>z - x\<bar>" by linarith
  with e3 e4 e5 have "\<bar>fl z - x\<bar> \<le>
      1 / (2 * 10 ^ 6) + 2 * \<bar>x\<bar> / 2 ^ 53 + \<bar>x\<bar> / (2 ^ 53 * 2 ^ 53) +
      1 / (2 * 10 ^ 6 * 2 ^ 53) + s + s / 10 ^ 6 + s / (10 ^ 6 * 2 ^ 53)"
    by linarith
  moreover have "\<bar>x\<bar> / (2 ^ 53 * 2 ^ 53) \<le> \<bar>x\<bar> / 2 ^ 53" by (simp add: field_simps)
  moreover have "s / 10 ^ 6 \<le> s" "s / (10 ^ 6 * 2 ^ 53) \<le> s" using s(1) by (simp_all add: field_simps)
  ultimately have "\<bar>fl z - x\<bar> \<le>
      1 / (2 * 10 ^ 6) + 3 * \<bar>x\<bar> / 2 ^ 53 + 1 / (2 * 10 ^ 6 * 2 ^ 53) + 3 * s"
    by linarith
  moreover have "1 / (2 * 10 ^ 6 * 2 ^ 53) + 3 * s \<le> (1::rat) / 2 ^ 51" using s(2) by simp
  moreover have "3 * \<bar>x\<bar> / 2 ^ 53 \<le> \<bar>x\<bar> / 2 ^ 51" by simp
  ultimately have "\<bar>fl z - x\<bar> \<le> 1 / (2 * 10 ^ 6) + \<bar>x\<bar> / 2 ^ 51 + 1 / 2 ^ 51" by linarith
  then show ?thesis unfolding r by (simp add: add_divide_distrib)
qed

lemma step03_val: "step03 = 5404319552844595 / 2 ^ 54"
  unfolding step03_def using fl_pos[of "3 / 10" "- 54" 5404319552844595]
  by (simp add: pow2_def)

lemma eps_val: "fl (1 / 10 ^ 9) = 4835703278458517 / 2 ^ 82"
  using fl_pos[of "1 / 10 ^ 9" "- 82" 4835703278458517]
  by (simp add: pow2_def)

lemma lat30_3_val: "lat30_3 = 8528691794332877 / 2 ^ 48"
  unfolding lat30_3_def using fl_pos[of "303 / 10" "- 48" 8528691794332877]
  by (simp add: pow2_def)

lemma lat30_6_val: "lat30_6 = 4306567143673037 / 2 ^ 47"
  unfolding lat30_6_def using fl_pos[of "306 / 10" "- 48" 8613134287346074]
  by (simp add: pow2_def)

lemma lng89_7w_val: "lng89_7w = - (6312076352736461 / 2 ^ 46)"
  unfolding lng89_7w_def using fl_neg_cert[of "- (897 / 10)" "- 46" 6312076352736461]
  by (simp add: pow2_def)

lemma lng89_4w_val: "lng89_4w = - (3145482864741581 / 2 ^ 45)"
  unfolding lng89_4w_def using fl_neg_cert[of "- (894 / 10)" "- 46" 6290965729483162]
  by (simp add: pow2_def)

lemma lat_step1: "fl (30 + step03) = lat30_3"
  unfolding eps_val step03_val lat30_3_val lat30_6_val lng89_7w_val lng89_4w_val
  using fl_pos[of "30 + 5404319552844595 / 2 ^ 54" "- 48" 8528691794332877]
  by (simp add: pow2_def)

lemma lat_step2: "fl (lat30_3 + step03) = lat30_6"
  unfolding eps_val step03_val lat30_3_val lat30_6_val lng89_7w_val lng89_4w_val
  using fl_pos[of "8528691794332877 / 2 ^ 48 + 5404319552844595 / 2 ^ 54" "- 48" 8613134287346074]
  by (simp add: pow2_def)

lemma lat_step3: "fl (lat30_6 + step03) = 8697576780359271 / 2 ^ 48"
  unfolding eps_val step03_val lat30_3_val lat30_6_val lng89_7w_val lng89_4w_val
  using fl_pos[of "4306567143673037 / 2 ^ 47 + 5404319552844595 / 2 ^ 54" "- 48" 8697576780359271]
  by (simp add: pow2_def)

lemma lng_step1: "fl (- 90 + step03) = lng89_7w"
  unfolding eps_val step03_val lat30_3_val lat30_6_val lng89_7w_val lng89_4w_val
  using fl_neg_cert[of "- 90 + 5404319552844595 / 2 ^ 54" "- 46" 6312076352736461]
  by (simp add: pow2_def)

lemma lng_step2: "fl (lng89_7w + step03) = lng89_4w"
  unfolding eps_val step03_val lat30_3_val lat30_6_val lng89_7w_val lng89_4w_val
  using fl_neg_cert[of 
      "- (6312076352736461 / 2 ^ 46) + 5404319552844595 / 2 ^ 54" "- 46" 6290965729483162]
  by (simp add: pow2_def)

lemma lng_step3: "fl (lng89_4w + step03) = - (6269855106229863 / 2 ^ 46)"
  unfolding eps_val step03_val lat30_3_val lat30_6_val lng89_7w_val lng89_4w_val
  using fl_neg_cert[of 
      "- (3145482864741581 / 2 ^ 45) + 5404319552844595 / 2 ^ 54" "- 46" 6269855106229863]
  by (simp add: pow2_def)

lemma lat_limit: "fl (lat30_6 + fl (1 / 10 ^ 9)) = 8613134287627549 / 2 ^ 48"
  unfolding eps_val step03_val lat30_3_val lat30_6_val lng89_7w_val lng89_4w_val
  using fl_pos[of "4306567143673037 / 2 ^ 47 + 4835703278458517 / 2 ^ 82" "- 48" 8613134287627549]
  by (simp add: pow2_def)

lemma lng_limit: "fl (lng89_4w + fl (1 / 10 ^ 9)) = - (6290965729412793 / 2 ^ 46)"
  unfolding eps_val step03_val lat30_3_val lat30_6_val lng89_7w_val lng89_4w_val
  using fl_neg_cert[of 
      "- (3145482864741581 / 2 ^ 45) + 4835703278458517 / 2 ^ 82" "- 46" 6290965729412793]
  by (simp add: pow2_def)

lemma prod_30: "fl (30 * 10 ^ 6) = 30000000"
  using fl_pos[of "30 * 10 ^ 6" "- 28" 8053063680000000]
  by (simp add: pow2_def)

lemma prod_lat30_3: "fl (lat30_3 * 10 ^ 6) = 30300000"
  unfolding eps_val step03_val lat30_3_val lat30_6_val lng89_7w_val lng89_4w_val
  using fl_pos[of "8528691794332877 / 2 ^ 48 * 10 ^ 6" "- 28" 8133594316800000]
  by (simp add: pow2_def)

lemma prod_lat30_6: "fl (lat30_6 * 10 ^ 6) = 30600000"
  unfolding eps_val step03_val lat30_3_val lat30_6_val lng89_7w_val lng89_4w_val
  using fl_pos[of "4306567143673037 / 2 ^ 47 * 10 ^ 6" "- 28" 8214124953600000]
  by (simp add: pow2_def)

lemma prod_90w: "fl (- 90 * 10 ^ 6) = - 90000000"
  using fl_neg_cert[of "- 90 * 10 ^ 6" "- 26" 6039797760000000]
  by (simp add: pow2_def)

lemma prod_lng89_7w: "fl (lng89_7w * 10 ^ 6) = - 89700000"
  unfolding eps_val step03_val lat30_3_val lat30_6_val lng89_7w_val lng89_4w_val
  using fl_neg_cert[of "- (6312076352736461 / 2 ^ 46) * 10 ^ 6" "- 26" 6019665100800000]
  by (simp add: pow2_def)

lemma prod_lng89_4w: "fl (lng89_4w * 10 ^ 6) = - 89400000"
  unfolding eps_val step03_val lat30_3_val lat30_6_val lng89_7w_val lng89_4w_val
  using fl_neg_cert[of "- (3145482864741581 / 2 ^ 45) * 10 ^ 6" "- 26" 5999532441600000]
  by (simp add: pow2_def)

lemma quot_30: "fl (30000000 / 10 ^ 6) = 30"
  using fl_pos[of "30000000 / 10 ^ 6" "- 48" 8444249301319680]
  by (simp add: pow2_def)

lemma quot_lat30_3: "fl (30300000 / 10 ^ 6) = lat30_3"
  unfolding eps_val step03_val lat30_3_val lat30_6_val lng89_7w_val lng89_4w_val
  using fl_pos[of "30300000 / 10 ^ 6" "- 48" 8528691794332877]
  by (simp add: pow2_def)

lemma quot_lat30_6: "fl (30600000 / 10 ^ 6) = lat30_6"
  unfolding eps_val step03_val lat30_3_val lat30_6_val lng89_7w_val lng89_4w_val
  using fl_pos[of "30600000 / 10 ^ 6" "- 48" 8613134287346074]
  by (simp add: pow2_def)

lemma quot_90w: "fl (- 90000000 / 10 ^ 6) = - 90"
  using fl_neg_cert[of "- 90000000 / 10 ^ 6" "- 46" 6333186975989760]
  by (simp add: pow2_def)

lemma quot_lng89_7w: "fl (- 89700000 / 10 ^ 6) = lng89_7w"
  unfolding eps_val step03_val lat30_3_val lat30_6_val lng89_7w_val lng89_4w_val
  using fl_neg_cert[of "- 89700000 / 10 ^ 6" "- 46" 6312076352736461]
  by (simp add: pow2_def)

lemma quot_lng89_4w: "fl (- 89400000 / 10 ^ 6) = lng89_4w"
  unfolding eps_val step03_val lat30_3_val lat30_6_val lng89_7w_val lng89_4w_val
  using fl_neg_cert[of "- 89400000 / 10 ^ 6" "- 46" 6290965729483162]
  by (simp add: pow2_def)

lemma round6_30: "round6 30 = 30"
proof -
  have "mathRound (30000000) = 30000000" by (simp add: mathRound_def floor_eq_iff)
  then show ?thesis
    unfolding round6_def prod_30 using quot_30 by simp
qed

lemma round6_lat30_3: "round6 lat30_3 = lat30_3"
proof -
  have "mathRound (30300000) = 30300000" by (simp add: mathRound_def floor_eq_iff)
  then show ?thesis
    unfolding round6_def prod_lat30_3 using quot_lat30_3 by simp
qed

lemma round6_lat30_6: "round6 lat30_6 = lat30_6"
proof -
  have "mathRound (30600000) = 30600000" by (simp add: mathRound_def floor_eq_iff)
  then show ?thesis
    unfolding round6_def prod_lat30_6 using quot_lat30_6 by simp
qed

lemma round6_90w: "round6 (- 90) = - 90"
proof -
  have "mathRound (- 90000000) = - 90000000" by (simp add: mathRound_def floor_eq_iff)
  then show ?thesis
    unfolding round6_def prod_90w using quot_90w by simp
qed

lemma round6_lng89_7w: "round6 lng89_7w = lng89_7w"
proof -
  have "mathRound (- 89700000) = - 89700000" by (simp add: mathRound_def floor_eq_iff)
  then show ?thesis
    unfolding round6_def prod_lng89_7w using quot_lng89_7w by simp
qed

lemma round6_lng89_4w: "round6 lng89_4w = lng89_4w"
proof -
  have "mathRound (- 89400000) = - 89400000" by (simp add: mathRound_def floor_eq_iff)
  then show ?thesis
    unfolding round6_def prod_lng89_4w using quot_lng89_4w by simp
qed

lemma step01_val: "step01 = 3602879701896397 / 2 ^ 55"
  unfolding step01_def
  using fl_pos[of "1 / 10" "- 56" 7205759403792794]
  by (simp add: pow2_def)

lemma lat30_1_val: "lat30_1 = 4236198399495373 / 2 ^ 47"
  unfolding lat30_1_def
  using fl_pos[of "301 / 10" "- 48" 8472396798990746]
  by (simp add: pow2_def)

lemma lat30_2_val: "lat30_2 = 8500544296661811 / 2 ^ 48"
  unfolding lat30_2_def
  using fl_pos[of "302 / 10" "- 48" 8500544296661811]
  by (simp add: pow2_def)

lemma lng89_9w_val: "lng89_9w = - (3163075050785997 / 2 ^ 45)"
  unfolding lng89_9w_def
  using fl_neg_cert[of "- (899 / 10)" "- 46" 6326150101571994]
  by (simp add: pow2_def)

lemma lng89_8w_val: "lng89_8w = - (6319113227154227 / 2 ^ 46)"
  unfolding lng89_8w_def
  using fl_neg_cert[of "- (898 / 10)" "- 46" 6319113227154227]
  by (simp add: pow2_def)

lemma guard_lat_step1: "fl (lat30_1 + step01) = 2125136074165453 / 2 ^ 46"
  unfolding eps_val step01_val lat30_1_val lat30_2_val lng89_9w_val lng89_8w_val
  using fl_pos[of "4236198399495373 / 2 ^ 47 + 3602879701896397 / 2 ^ 55" "- 48" 8500544296661812]
  by (simp add: pow2_def)

lemma guard_lat_step2: "fl (fl (lat30_1 + step01) + step01) = 4264345897166439 / 2 ^ 47"
  unfolding guard_lat_step1
  unfolding eps_val step01_val lat30_1_val lat30_2_val lng89_9w_val lng89_8w_val
  using fl_pos[of "2125136074165453 / 2 ^ 46 + 3602879701896397 / 2 ^ 55" "- 48" 8528691794332878]
  by (simp add: pow2_def)

lemma guard_lat_limit: "fl (lat30_2 + fl (1 / 10 ^ 9)) = 4250272148471643 / 2 ^ 47"
  unfolding eps_val step01_val lat30_1_val lat30_2_val lng89_9w_val lng89_8w_val
  using fl_pos[of "8500544296661811 / 2 ^ 48 + 4835703278458517 / 2 ^ 82" "- 48" 8500544296943286]
  by (simp add: pow2_def)

lemma guard_lng_step1: "fl (lng89_9w + step01) = - (1579778306788557 / 2 ^ 44)"
  unfolding eps_val step01_val lat30_1_val lat30_2_val lng89_9w_val lng89_8w_val
  using fl_neg_cert[of "- (3163075050785997 / 2 ^ 45) + 3602879701896397 / 2 ^ 55" "- 46" 6319113227154228]
  by (simp add: pow2_def)

lemma guard_lng_step2: "fl (fl (lng89_9w + step01) + step01) = - (3156038176368231 / 2 ^ 45)"
  unfolding guard_lng_step1
  unfolding eps_val step01_val lat30_1_val lat30_2_val lng89_9w_val lng89_8w_val
  using fl_neg_cert[of "- (1579778306788557 / 2 ^ 44) + 3602879701896397 / 2 ^ 55" "- 46" 6312076352736462]
  by (simp add: pow2_def)

lemma guard_lng_limit: "fl (lng89_8w + fl (1 / 10 ^ 9)) = - (3159556613541929 / 2 ^ 45)"
  unfolding eps_val step01_val lat30_1_val lat30_2_val lng89_9w_val lng89_8w_val
  using fl_neg_cert[of "- (6319113227154227 / 2 ^ 46) + 4835703278458517 / 2 ^ 82" "- 46" 6319113227083858]
  by (simp add: pow2_def)

lemma prod_lat30_1: "fl (lat30_1 * 10 ^ 6) = 30100000"
  unfolding eps_val step01_val lat30_1_val lat30_2_val lng89_9w_val lng89_8w_val
  using fl_pos[of "4236198399495373 / 2 ^ 47 * 10 ^ 6" "- 28" 8079907225600000]
  by (simp add: pow2_def)

lemma quot_lat30_1: "fl (30100000 / 10 ^ 6) = lat30_1"
  unfolding eps_val step01_val lat30_1_val lat30_2_val lng89_9w_val lng89_8w_val
  using fl_pos[of "30100000 / 10 ^ 6" "- 48" 8472396798990746]
  by (simp add: pow2_def)

lemma round6_lat30_1: "round6 lat30_1 = lat30_1"
proof -
  have "mathRound 30100000 = 30100000" by (simp add: mathRound_def floor_eq_iff)
  then show ?thesis
    unfolding round6_def prod_lat30_1 using quot_lat30_1 by simp
qed

lemma prod_guard_lat: "fl (fl (lat30_1 + step01) * 10 ^ 6) = 8106750771200001 / 2 ^ 28"
  unfolding guard_lat_step1
  unfolding eps_val step01_val lat30_1_val lat30_2_val lng89_9w_val lng89_8w_val
  using fl_pos[of "2125136074165453 / 2 ^ 46 * 10 ^ 6" "- 28" 8106750771200001]
  by (simp add: pow2_def)

lemma quot_lat30_2: "fl (30200000 / 10 ^ 6) = lat30_2"
  unfolding eps_val step01_val lat30_1_val lat30_2_val lng89_9w_val lng89_8w_val
  using fl_pos[of "30200000 / 10 ^ 6" "- 48" 8500544296661811]
  by (simp add: pow2_def)

lemma round6_guard_lat: "round6 (fl (lat30_1 + step01)) = lat30_2"
proof -
  have "mathRound (8106750771200001 / 2 ^ 28) = 30200000" by (simp add: mathRound_def floor_eq_iff)
  then show ?thesis
    unfolding round6_def prod_guard_lat using quot_lat30_2 by simp
qed

lemma prod_lng89_9w: "fl (lng89_9w * 10 ^ 6) = - 89900000"
  unfolding eps_val step01_val lat30_1_val lat30_2_val lng89_9w_val lng89_8w_val
  using fl_neg_cert[of "- (3163075050785997 / 2 ^ 45) * 10 ^ 6" "- 26" 6033086873600000]
  by (simp add: pow2_def)

lemma quot_lng89_9w: "fl (- 89900000 / 10 ^ 6) = lng89_9w"
  unfolding eps_val step01_val lat30_1_val lat30_2_val lng89_9w_val lng89_8w_val
  using fl_neg_cert[of "- 89900000 / 10 ^ 6" "- 46" 6326150101571994]
  by (simp add: pow2_def)

lemma round6_lng89_9w: "round6 lng89_9w = lng89_9w"
proof -
  have "mathRound (- 89900000) = - 89900000" by (simp add: mathRound_def floor_eq_iff)
  then show ?thesis
    unfolding round6_def prod_lng89_9w using quot_lng89_9w by simp
qed

lemma prod_guard_lng: "fl (fl (lng89_9w + step01) * 10 ^ 6) = - (6026375987200001 / 2 ^ 26)"
  unfolding guard_lng_step1
  unfolding eps_val step01_val lat30_1_val lat30_2_val lng89_9w_val lng89_8w_val
  using fl_neg_cert[of "- (1579778306788557 / 2 ^ 44) * 10 ^ 6" "- 26" 6026375987200001]
  by (simp add: pow2_def)

lemma quot_lng89_8w: "fl (- 89800000 / 10 ^ 6) = lng89_8w"
  unfolding eps_val step01_val lat30_1_val lat30_2_val lng89_9w_val lng89_8w_val
  using fl_neg_cert[of "- 89800000 / 10 ^ 6" "- 46" 6319113227154227]
  by (simp add: pow2_def)

lemma round6_guard_lng: "round6 (fl (lng89_9w + step01)) = lng89_8w"
proof -
  have "mathRound (- (6026375987200001 / 2 ^ 26)) = - 89800000" by (simp add: mathRound_def floor_eq_iff)
  then show ?thesis
    unfolding round6_def prod_guard_lng using quot_lng89_8w by simp
qed

section \<open>Grid generation: the example box\<close>

lemma lng_bound: "maxLng exampleBox = lng89_4w" and lat_bound: "maxLat exampleBox = lat30_6"
  and lng_start: "minLng exampleBox = - 90" and lat_start: "minLat exampleBox = 30"
  by (simp_all add: exampleBox_def)

lemma lng_in:
  "- 90 \<le> fl (lng89_4w + fl (1 / 10 ^ 9))"
  "lng89_7w \<le> fl (lng89_4w + fl (1 / 10 ^ 9))"
  "lng89_4w \<le> fl (lng89_4w + fl (1 / 10 ^ 9))"
  "\<not> fl (lng89_4w + step03) \<le> fl (lng89_4w + fl (1 / 10 ^ 9))"
  unfolding lng_limit lng_step3 unfolding lng89_7w_val lng89_4w_val by simp_all

lemma lat_in:
  "30 \<le> fl (lat30_6 + fl (1 / 10 ^ 9))"
  "lat30_3 \<le> fl (lat30_6 + fl (1 / 10 ^ 9))"
  "lat30_6 \<le> fl (lat30_6 + fl (1 / 10 ^ 9))"
  "\<not> fl (lat30_6 + step03) \<le> fl (lat30_6 + fl (1 / 10 ^ 9))"
  unfolding lat_limit lat_step3 unfolding lat30_3_val lat30_6_val by simp_all

lemma lng_row:
  "lngLoop exampleBox step03 lt (- 90) pts =
     Some (pts @ [\<lparr>lat = round6 lt, lng = - 90\<rparr>, \<lparr>lat = round6 lt, lng = lng89_7w\<rparr>,
                  \<lparr>lat = round6 lt, lng = lng89_4w\<rparr>])"
proof -
  have 3: "lngLoop exampleBox step03 lt (fl (lng89_4w + step03)) p = Some p" for p
    by (subst lngLoop.simps) (simp only: lng_bound lng_in if_False)
  have 2: "lngLoop exampleBox step03 lt lng89_4w p =
             Some (p @ [\<lparr>lat = round6 lt, lng = lng89_4w\<rparr>])" for p
    by (subst lngLoop.simps) (simp only: lng_bound lng_in if_True 3 round6_lng89_4w)
  have 1: "lngLoop exampleBox step03 lt lng89_7w p =
             Some ((p @ [\<lparr>lat = round6 lt, lng = lng89_7w\<rparr>]) @
                   [\<lparr>lat = round6 lt, lng = lng89_4w\<rparr>])" for p
    by (subst lngLoop.simps) (simp only: lng_bound lng_in if_True 2 round6_lng89_7w lng_step2)
  have 0: "lngLoop exampleBox step03 lt (- 90) p =
             Some (((p @ [\<lparr>lat = round6 lt, lng = - 90\<rparr>]) @ [\<lparr>lat = round6 lt, lng = lng89_7w\<rparr>]) @
                   [\<lparr>lat = round6 lt, lng = lng89_4w\<rparr>])" for p
    by (subst lngLoop.simps) (simp only: lng_bound lng_in if_True 1 round6_90w lng_step1)
  show ?thesis by (simp add: 0)
qed

lemma example_grid: "generateGridPoints exampleBox step03 = Some exampleGrid"
proof -
  have 3: "latLoop exampleBox step03 (fl (lat30_6 + step03)) p = Some p" for p
    by (subst latLoop.simps) (simp only: lat_bound lat_in if_False)
  have 2: "latLoop exampleBox step03 lat30_6 p =
             Some (p @ [\<lparr>lat = lat30_6, lng = - 90\<rparr>, \<lparr>lat = lat30_6, lng = lng89_7w\<rparr>,
                        \<lparr>lat = lat30_6, lng = lng89_4w\<rparr>])" for p
    by (subst latLoop.simps)
       (simp only: lat_bound lng_start lat_in if_True lng_row round6_lat30_6 3 Option.bind.simps)
  have 1: "latLoop exampleBox step03 lat30_3 p =
             Some ((p @ [\<lparr>lat = lat30_3, lng = - 90\<rparr>, \<lparr>lat = lat30_3, lng = lng89_7w\<rparr>,
                        \<lparr>lat = lat30_3, lng = lng89_4w\<rparr>]) @
                   [\<lparr>lat = lat30_6, lng = - 90\<rparr>, \<lparr>lat = lat30_6, lng = lng89_7w\<rparr>,
                        \<lparr>lat = lat30_6, lng = lng89_4w\<rparr>])" for p
    by (subst latLoop.simps)
       (simp only: lat_bound lng_start lat_in if_True lng_row round6_lat30_3 lat_step2 2
                   Option.bind.simps)
  have 0: "latLoop exampleBox step03 30 p =
             Some (((p @ [\<lparr>lat = 30, lng = - 90\<rparr>, \<lparr>lat = 30, lng = lng89_7w\<rparr>,
                        \<lparr>lat = 30, lng = lng89_4w\<rparr>]) @
                   [\<lparr>lat = lat30_3, lng = - 90\<rparr>, \<lparr>lat = lat30_3, lng = lng89_7w\<rparr>,
                        \<lparr>lat = lat30_3, lng = lng89_4w\<rparr>]) @
                   [\<lparr>lat = lat30_6, lng = - 90\<rparr>, \<lparr>lat = lat30_6, lng = lng89_7w\<rparr>,
                        \<lparr>lat = lat30_6, lng = lng89_4w\<rparr>])" for p
    by (subst latLoop.simps)
       (simp only: lat_bound lng_start lat_in if_True lng_row round6_30 lat_step1 1
                   Option.bind.simps)
  show ?thesis
    unfolding generateGridPoints_def lat_start by (simp add: 0 exampleGrid_def)
qed

lemma round6_sixDecimals: "sixDecimals (round6 x)"
  unfolding sixDecimals_def round6_def by blast

lemma lngLoop_rounded:
  assumes a: "lngLoop b stepDeg lt lg pts = Some r"
  shows "list_all pointRounded pts \<longrightarrow> list_all pointRounded r"
proof (rule lngLoop.raw_induct[where P = "\<lambda>b stepDeg lt lg pts r.
         list_all pointRounded pts \<longrightarrow> list_all pointRounded r", OF _ a], rule impI)
  fix f b stepDeg lt lg pts r
  assume IH: "\<And>b stepDeg lt lg pts r. f b stepDeg lt lg pts = Some r \<Longrightarrow>
            list_all pointRounded pts \<longrightarrow> list_all pointRounded r"
    and eq: "(if lg \<le> fl (maxLng b + fl (1 / 10 ^ 9))
      then f b stepDeg lt (fl (lg + stepDeg))
             (pts @ [\<lparr>lat = round6 lt, lng = round6 lg\<rparr>])
      else Some pts) = Some r"
    and ok: "list_all pointRounded pts"
  show "list_all pointRounded r"
  proof (cases "lg \<le> fl (maxLng b + fl (1 / 10 ^ 9))")
    case True
    with eq have "f b stepDeg lt (fl (lg + stepDeg))
             (pts @ [\<lparr>lat = round6 lt, lng = round6 lg\<rparr>]) = Some r" by simp
    moreover have "list_all pointRounded (pts @ [\<lparr>lat = round6 lt, lng = round6 lg\<rparr>])"
      using ok by (simp add: pointRounded_def round6_sixDecimals)
    ultimately show ?thesis using IH by blast
  next
    case False
    with eq ok show ?thesis by simp
  qed
qed

lemma latLoop_rounded:
  assumes a: "latLoop b stepDeg lt pts = Some r"
  shows "list_all pointRounded pts \<longrightarrow> list_all pointRounded r"
proof (rule latLoop.raw_induct[where P = "\<lambda>b stepDeg lt pts r.
         list_all pointRounded pts \<longrightarrow> list_all pointRounded r", OF _ a], rule impI)
  fix f b stepDeg lt pts r
  assume IH: "\<And>b stepDeg lt pts r. f b stepDeg lt pts = Some r \<Longrightarrow>
            list_all pointRounded pts \<longrightarrow> list_all pointRounded r"
    and eq: "(if lt \<le> fl (maxLat b + fl (1 / 10 ^ 9))
      then Option.bind (lngLoop b stepDeg lt (minLng b) pts)
             (\<lambda>points1. f b stepDeg (fl (lt + stepDeg)) points1)
      else Some pts) = Some r"
    and ok: "list_all pointRounded pts"
  show "list_all pointRounded r"
  proof (cases "lt \<le> fl (maxLat b + fl (1 / 10 ^ 9))")
    case True
    with eq obtain p1 where p1: "lngLoop b stepDeg lt (minLng b) pts = Some p1"
      and r: "f b stepDeg (fl (lt + stepDeg)) p1 = Some r"
      by (auto simp: bind_eq_Some_conv)
    from lngLoop_rounded[OF p1] ok have "list_all pointRounded p1" by simp
    with IH[OF r] show ?thesis by simp
  next
    case False
    with eq ok show ?thesis by simp
  qed
qed

section \<open>Grid generation: the shape of the grid\<close>

lemma loopValues_unique:
  "loopValues v limit stepDeg xs \<Longrightarrow> loopValues v limit stepDeg ys \<Longrightarrow> xs = ys"
proof (induction xs arbitrary: v ys)
  case Nil
  then show ?case by (cases ys) auto
next
  case (Cons x xs)
  then show ?case by (cases ys) auto
qed

lemma lngLoop_values:
  "loopValues lg (fl (maxLng b + fl (1 / 10 ^ 9))) stepDeg lngs \<Longrightarrow>
   lngLoop b stepDeg lt lg pts =
     Some (pts @ map (\<lambda>lo. \<lparr>lat = round6 lt, lng = round6 lo\<rparr>) lngs)"
proof (induction lngs arbitrary: lg pts)
  case Nil
  then show ?case by (subst lngLoop.simps) simp
next
  case (Cons x xs)
  then have "lngLoop b stepDeg lt (fl (lg + stepDeg)) (pts @ [\<lparr>lat = round6 lt, lng = round6 lg\<rparr>]) =
     Some ((pts @ [\<lparr>lat = round6 lt, lng = round6 lg\<rparr>]) @
           map (\<lambda>lo. \<lparr>lat = round6 lt, lng = round6 lo\<rparr>) xs)"
    by simp
  with Cons.prems show ?case by (subst lngLoop.simps) simp
qed

lemma lngLoop_returns:
  assumes a: "lngLoop b stepDeg lt lg pts = Some r"
  shows "\<exists>lngs. loopValues lg (fl (maxLng b + fl (1 / 10 ^ 9))) stepDeg lngs \<and>
           r = pts @ map (\<lambda>lo. \<lparr>lat = round6 lt, lng = round6 lo\<rparr>) lngs"
proof (rule lngLoop.raw_induct[where P = "\<lambda>b stepDeg lt lg pts r.
         \<exists>lngs. loopValues lg (fl (maxLng b + fl (1 / 10 ^ 9))) stepDeg lngs \<and>
           r = pts @ map (\<lambda>lo. \<lparr>lat = round6 lt, lng = round6 lo\<rparr>) lngs", OF _ a])
  fix f b stepDeg lt lg pts r
  assume IH: "\<And>b stepDeg lt lg pts r. f b stepDeg lt lg pts = Some r \<Longrightarrow>
         \<exists>lngs. loopValues lg (fl (maxLng b + fl (1 / 10 ^ 9))) stepDeg lngs \<and>
           r = pts @ map (\<lambda>lo. \<lparr>lat = round6 lt, lng = round6 lo\<rparr>) lngs"
    and eq: "(if lg \<le> fl (maxLng b + fl (1 / 10 ^ 9))
      then f b stepDeg lt (fl (lg + stepDeg))
             (pts @ [\<lparr>lat = round6 lt, lng = round6 lg\<rparr>])
      else Some pts) = Some r"
  show "\<exists>lngs. loopValues lg (fl (maxLng b + fl (1 / 10 ^ 9))) stepDeg lngs \<and>
           r = pts @ map (\<lambda>lo. \<lparr>lat = round6 lt, lng = round6 lo\<rparr>) lngs"
  proof (cases "lg \<le> fl (maxLng b + fl (1 / 10 ^ 9))")
    case True
    with eq have "f b stepDeg lt (fl (lg + stepDeg))
             (pts @ [\<lparr>lat = round6 lt, lng = round6 lg\<rparr>]) = Some r" by simp
    from IH[OF this] obtain lngs where
      "loopValues (fl (lg + stepDeg)) (fl (maxLng b + fl (1 / 10 ^ 9))) stepDeg lngs"
      "r = (pts @ [\<lparr>lat = round6 lt, lng = round6 lg\<rparr>]) @
             map (\<lambda>lo. \<lparr>lat = round6 lt, lng = round6 lo\<rparr>) lngs" by blast
    with True show ?thesis by (intro exI[of _ "lg # lngs"]) simp
  next
    case False
    with eq show ?thesis by (intro exI[of _ "[]"]) simp
  qed
qed

lemma gridOf_Cons:
  "gridOf (la # lats) lngs =
     map (\<lambda>lo. \<lparr>lat = round6 la, lng = round6 lo\<rparr>) lngs @ gridOf lats lngs"
  by (simp add: gridOf_def)

lemma gridOf_Nil: "gridOf [] lngs = []"
  by (simp add: gridOf_def)

lemma latLoop_values:
  "loopValues lt (fl (maxLat b + fl (1 / 10 ^ 9))) stepDeg lats \<Longrightarrow>
   (lats \<noteq> [] \<longrightarrow> loopValues (minLng b) (fl (maxLng b + fl (1 / 10 ^ 9))) stepDeg lngs) \<Longrightarrow>
   latLoop b stepDeg lt pts = Some (pts @ gridOf lats lngs)"
proof (induction lats arbitrary: lt pts)
  case Nil
  then show ?case by (subst latLoop.simps) (simp add: gridOf_Nil)
next
  case (Cons x xs)
  from Cons.prems have x: "x = lt" and le: "lt \<le> fl (maxLat b + fl (1 / 10 ^ 9))"
    and rest: "loopValues (fl (lt + stepDeg)) (fl (maxLat b + fl (1 / 10 ^ 9))) stepDeg xs"
    and lngs: "loopValues (minLng b) (fl (maxLng b + fl (1 / 10 ^ 9))) stepDeg lngs"
    by auto
  have row: "lngLoop b stepDeg lt (minLng b) pts =
     Some (pts @ map (\<lambda>lo. \<lparr>lat = round6 lt, lng = round6 lo\<rparr>) lngs)"
    using lngs by (rule lngLoop_values)
  have "latLoop b stepDeg (fl (lt + stepDeg))
          (pts @ map (\<lambda>lo. \<lparr>lat = round6 lt, lng = round6 lo\<rparr>) lngs) =
        Some ((pts @ map (\<lambda>lo. \<lparr>lat = round6 lt, lng = round6 lo\<rparr>) lngs) @ gridOf xs lngs)"
    using rest lngs by (intro Cons.IH) auto
  with le row x show ?case by (subst latLoop.simps) (simp add: gridOf_Cons)
qed

lemma latLoop_returns:
  assumes a: "latLoop b stepDeg lt pts = Some r"
  shows "\<exists>lats lngs. loopValues lt (fl (maxLat b + fl (1 / 10 ^ 9))) stepDeg lats \<and>
           (lats \<noteq> [] \<longrightarrow>
              loopValues (minLng b) (fl (maxLng b + fl (1 / 10 ^ 9))) stepDeg lngs) \<and>
           r = pts @ gridOf lats lngs"
proof (rule latLoop.raw_induct[where P = "\<lambda>b stepDeg lt pts r.
         \<exists>lats lngs. loopValues lt (fl (maxLat b + fl (1 / 10 ^ 9))) stepDeg lats \<and>
           (lats \<noteq> [] \<longrightarrow>
              loopValues (minLng b) (fl (maxLng b + fl (1 / 10 ^ 9))) stepDeg lngs) \<and>
           r = pts @ gridOf lats lngs", OF _ a])
  fix f b stepDeg lt pts r
  assume IH: "\<And>b stepDeg lt pts r. f b stepDeg lt pts = Some r \<Longrightarrow>
         \<exists>lats lngs. loopValues lt (fl (maxLat b + fl (1 / 10 ^ 9))) stepDeg lats \<and>
           (lats \<noteq> [] \<longrightarrow>
              loopValues (minLng b) (fl (maxLng b + fl (1 / 10 ^ 9))) stepDeg lngs) \<and>
           r = pts @ gridOf lats lngs"
    and eq: "(if lt \<le> fl (maxLat b + fl (1 / 10 ^ 9))
      then Option.bind (lngLoop b stepDeg lt (minLng b) pts)
             (\<lambda>points1. f b stepDeg (fl (lt + stepDeg)) points1)
      else Some pts) = Some r"
  show "\<exists>lats lngs. loopValues lt (fl (maxLat b + fl (1 / 10 ^ 9))) stepDeg lats \<and>
           (lats \<noteq> [] \<longrightarrow>
              loopValues (minLng b) (fl (maxLng b + fl (1 / 10 ^ 9))) stepDeg lngs) \<and>
           r = pts @ gridOf lats lngs"
  proof (cases "lt \<le> fl (maxLat b + fl (1 / 10 ^ 9))")
    case True
    with eq obtain p1 where p1: "lngLoop b stepDeg lt (minLng b) pts = Some p1"
      and r: "f b stepDeg (fl (lt + stepDeg)) p1 = Some r"
      by (auto simp: bind_eq_Some_conv)
    from lngLoop_returns[OF p1] obtain lngs where
      lngs: "loopValues (minLng b) (fl (maxLng b + fl (1 / 10 ^ 9))) stepDeg lngs" and
      p1': "p1 = pts @ map (\<lambda>lo. \<lparr>lat = round6 lt, lng = round6 lo\<rparr>) lngs" by blast
    from IH[OF r] obtain lats lngs' where
      lats: "loopValues (fl (lt + stepDeg)) (fl (maxLat b + fl (1 / 10 ^ 9))) stepDeg lats" and
      lngs': "lats \<noteq> [] \<longrightarrow>
              loopValues (minLng b) (fl (maxLng b + fl (1 / 10 ^ 9))) stepDeg lngs'" and
      r': "r = p1 @ gridOf lats lngs'" by blast
    have "gridOf lats lngs' = gridOf lats lngs"
    proof (cases "lats = []")
      case True
      then show ?thesis by (simp add: gridOf_Nil)
    next
      case False
      with lngs' lngs have "lngs' = lngs" by (auto dest: loopValues_unique)
      then show ?thesis by simp
    qed
    with r' p1' have "r = pts @ gridOf (lt # lats) lngs" by (simp add: gridOf_Cons)
    with True lats lngs show ?thesis by (intro exI[of _ "lt # lats"] exI[of _ lngs]) simp
  next
    case False
    with eq show ?thesis by (intro exI[of _ "[]"] exI[of _ "[]"]) (simp add: gridOf_Nil)
  qed
qed

lemma generateGridPoints_iff:
  "generateGridPoints b stepDeg = Some pts \<longleftrightarrow>
   (\<exists>lats lngs. loopValues (minLat b) (fl (maxLat b + fl (1 / 10 ^ 9))) stepDeg lats \<and>
      (lats \<noteq> [] \<longrightarrow>
         loopValues (minLng b) (fl (maxLng b + fl (1 / 10 ^ 9))) stepDeg lngs) \<and>
      pts = gridOf lats lngs)"
proof
  assume "generateGridPoints b stepDeg = Some pts"
  then have "latLoop b stepDeg (minLat b) [] = Some pts" by (simp add: generateGridPoints_def)
  from latLoop_returns[OF this] show "\<exists>lats lngs.
      loopValues (minLat b) (fl (maxLat b + fl (1 / 10 ^ 9))) stepDeg lats \<and>
      (lats \<noteq> [] \<longrightarrow>
         loopValues (minLng b) (fl (maxLng b + fl (1 / 10 ^ 9))) stepDeg lngs) \<and>
      pts = gridOf lats lngs" by simp
next
  assume "\<exists>lats lngs. loopValues (minLat b) (fl (maxLat b + fl (1 / 10 ^ 9))) stepDeg lats \<and>
      (lats \<noteq> [] \<longrightarrow>
         loopValues (minLng b) (fl (maxLng b + fl (1 / 10 ^ 9))) stepDeg lngs) \<and>
      pts = gridOf lats lngs"
  then obtain lats lngs where
    "loopValues (minLat b) (fl (maxLat b + fl (1 / 10 ^ 9))) stepDeg lats"
    "lats \<noteq> [] \<longrightarrow> loopValues (minLng b) (fl (maxLng b + fl (1 / 10 ^ 9))) stepDeg lngs"
    "pts = gridOf lats lngs" by blast
  from latLoop_values[OF this(1,2), of "[]"] this(3)
  show "generateGridPoints b stepDeg = Some pts" by (simp add: generateGridPoints_def)
qed

lemma loopValues_shape:
  "loopValues v limit stepDeg xs \<Longrightarrow>
   (xs = [] \<longleftrightarrow> \<not> v \<le> limit) \<and>
   (xs \<noteq> [] \<longrightarrow> hd xs = v \<and> \<not> fl (last xs + stepDeg) \<le> limit) \<and>
   (\<forall>x \<in> set xs. x \<le> limit) \<and>
   (\<forall>n. Suc n < length xs \<longrightarrow> xs ! Suc n = fl (xs ! n + stepDeg))"
proof (induction xs arbitrary: v)
  case Nil
  then show ?case by simp
next
  case (Cons x xs)
  from Cons.prems have x: "x = v" "v \<le> limit"
    and rest: "loopValues (fl (v + stepDeg)) limit stepDeg xs" by auto
  note IH = Cons.IH[OF rest]
  have "xs ! n = fl ((x # xs) ! n + stepDeg)" if "n < length xs" for n
  proof (cases n)
    case 0
    with that IH x show ?thesis by (cases xs) auto
  next
    case (Suc m)
    with that IH show ?thesis by auto
  qed
  moreover have "\<not> fl (last (x # xs) + stepDeg) \<le> limit"
    using IH x by (cases "xs = []") auto
  ultimately show ?case using x IH by auto
qed

lemma round6_nearest:
  "\<exists>k. round6 x = fl (of_int k / 10 ^ 6) \<and>
       of_int k - 1 / 2 \<le> fl (x * 10 ^ 6) \<and> fl (x * 10 ^ 6) < of_int k + 1 / 2"
  unfolding round6_def using mathRound_nearest[of "fl (x * 10 ^ 6)"] by blast

lemma loopValues_cover:
  "loopValues v limit stepDeg xs \<Longrightarrow> v \<le> y \<Longrightarrow> y \<le> limit \<Longrightarrow>
   \<exists>x \<in> set xs. x \<le> y \<and> y < fl (x + stepDeg)"
proof (induction xs arbitrary: v)
  case Nil
  then show ?case by simp
next
  case (Cons x xs)
  from Cons.prems have x: "x = v"
    and rest: "loopValues (fl (v + stepDeg)) limit stepDeg xs" by auto
  show ?case
  proof (cases "y < fl (v + stepDeg)")
    case True
    with x Cons.prems(2) show ?thesis by auto
  next
    case False
    then have "fl (v + stepDeg) \<le> y" by simp
    from Cons.IH[OF rest this Cons.prems(3)] show ?thesis by auto
  qed
qed

lemma upper_bound_included: "fl m = m \<Longrightarrow> m \<le> fl (m + fl (1 / 10 ^ 9))"
proof -
  assume m: "fl m = m"
  have "m \<le> m + fl (1 / 10 ^ 9)" unfolding eps_val by simp
  from fl_mono[OF this] m show ?thesis by simp
qed

section \<open>Grid generation: the box with the step 0.1\<close>

lemma guard_lat_in:
  "lat30_1 \<le> fl (lat30_2 + fl (1 / 10 ^ 9))"
  "fl (lat30_1 + step01) \<le> fl (lat30_2 + fl (1 / 10 ^ 9))"
  "\<not> fl (fl (lat30_1 + step01) + step01) \<le> fl (lat30_2 + fl (1 / 10 ^ 9))"
  "\<not> fl (lat30_1 + step01) \<le> lat30_2"
  unfolding guard_lat_step2 unfolding guard_lat_limit guard_lat_step1
  unfolding lat30_1_val lat30_2_val
  by simp_all

lemma guard_lng_in:
  "lng89_9w \<le> fl (lng89_8w + fl (1 / 10 ^ 9))"
  "fl (lng89_9w + step01) \<le> fl (lng89_8w + fl (1 / 10 ^ 9))"
  "\<not> fl (fl (lng89_9w + step01) + step01) \<le> fl (lng89_8w + fl (1 / 10 ^ 9))"
  "fl (lng89_9w + step01) \<noteq> lng89_8w"
  unfolding guard_lng_step2 unfolding guard_lng_limit guard_lng_step1
  unfolding lng89_9w_val lng89_8w_val
  by simp_all

lemma guard_lat_values:
  "loopValues (minLat guardBox) (fl (maxLat guardBox + fl (1 / 10 ^ 9))) step01
     [lat30_1, fl (lat30_1 + step01)]"
  unfolding guardBox_def
  by (simp only: bounds.select_convs loopValues.simps guard_lat_in simp_thms)

lemma guard_lng_values:
  "loopValues (minLng guardBox) (fl (maxLng guardBox + fl (1 / 10 ^ 9))) step01
     [lng89_9w, fl (lng89_9w + step01)]"
  unfolding guardBox_def
  by (simp only: bounds.select_convs loopValues.simps guard_lng_in simp_thms)

lemma guard_grid: "generateGridPoints guardBox step01 = Some guardGrid"
proof -
  have "guardGrid = gridOf [lat30_1, fl (lat30_1 + step01)] [lng89_9w, fl (lng89_9w + step01)]"
    by (simp add: guardGrid_def gridOf_def round6_lat30_1 round6_guard_lat round6_lng89_9w
        round6_guard_lng)
  with guard_lat_values guard_lng_values show ?thesis
    unfolding generateGridPoints_iff by blast
qed

lemma fl_lat30_6: "fl lat30_6 = lat30_6"
  unfolding lat30_6_val
  using fl_pos[of "4306567143673037 / 2 ^ 47" "- 48" 8613134287346074]
  by (simp add: pow2_def)

text \<open>
  C9. \<open>generateGridPoints\<close> returns exactly when both loop variables take finitely many
  values, and then it returns the Cartesian product of the latitude and longitude steps,
  each coordinate rounded by \<open>round6\<close>. The steps start at the lower bound, each is the
  one before plus the step, all are at most the upper bound plus \<open>1e-9\<close>, and the step
  after the last exceeds it: every value from the lower bound to that limit lies less
  than one step above a row. An upper bound that is a double is at most the limit, so a
  loop variable that reaches it, or exceeds it by rounding within the guard, still gives
  a row. \<open>round6 x\<close> is the double nearest to \<open>k\<close> millionths, where \<open>k\<close> is the integer
  nearest to the double of \<open>x * 1e6\<close>, and differs from \<open>x\<close> by at most half a millionth
  and the rounding of the doubles.

  For the box with latitudes 30 to 30.6 and longitudes -90 to -89.4 and the step 0.3
  (each the double its literal denotes), the result is the nine points of the 3 by 3
  grid, the rows and columns of the upper bounds 30.6 and -89.4 included. For the box
  with latitudes 30.1 to 30.2 and longitudes -89.9 to -89.8 and the step 0.1 the result
  is the four points of the 2 by 2 grid: the second latitude step is above the upper
  bound 30.2 and within the guard, and both second steps are rounded to the bounds.
\<close>

theorem grid_example_nine_points:
  "generateGridPoints exampleBox step03 = Some exampleGrid \<and> length exampleGrid = 9 \<and>
   (\<forall>pts. generateGridPoints b stepDeg = Some pts \<longrightarrow> list_all pointRounded pts) \<and>
   (generateGridPoints b stepDeg = Some grid \<longleftrightarrow>
      (\<exists>lats lngs.
         loopValues (minLat b) (fl (maxLat b + fl (1 / 10 ^ 9))) stepDeg lats \<and>
         (lats \<noteq> [] \<longrightarrow>
            loopValues (minLng b) (fl (maxLng b + fl (1 / 10 ^ 9))) stepDeg lngs) \<and>
         grid = gridOf lats lngs)) \<and>
   (loopValues v limit stepDeg xs \<longrightarrow>
      (xs = [] \<longleftrightarrow> \<not> v \<le> limit) \<and>
      (xs \<noteq> [] \<longrightarrow> hd xs = v \<and> \<not> fl (last xs + stepDeg) \<le> limit) \<and>
      (\<forall>x \<in> set xs. x \<le> limit) \<and>
      (\<forall>n. Suc n < length xs \<longrightarrow> xs ! Suc n = fl (xs ! n + stepDeg))) \<and>
   (loopValues v limit stepDeg xs \<and> v \<le> y \<and> y \<le> limit \<longrightarrow>
      (\<exists>x \<in> set xs. x \<le> y \<and> y < fl (x + stepDeg))) \<and>
   (fl m = m \<longrightarrow> m \<le> fl (m + fl (1 / 10 ^ 9))) \<and>
   (\<exists>k. round6 x = fl (of_int k / 10 ^ 6) \<and>
        of_int k - 1 / 2 \<le> fl (x * 10 ^ 6) \<and> fl (x * 10 ^ 6) < of_int k + 1 / 2) \<and>
   \<bar>round6 x - x\<bar> \<le> 1 / (2 * 10 ^ 6) + (\<bar>x\<bar> + 1) / 2 ^ 51 \<and>
   generateGridPoints guardBox step01 = Some guardGrid \<and> length guardGrid = 4 \<and>
   loopValues (minLat guardBox) (fl (maxLat guardBox + fl (1 / 10 ^ 9))) step01
     [lat30_1, fl (lat30_1 + step01)] \<and>
   \<not> fl (lat30_1 + step01) \<le> maxLat guardBox \<and>
   round6 (fl (lat30_1 + step01)) = lat30_2 \<and>
   loopValues (minLng guardBox) (fl (maxLng guardBox + fl (1 / 10 ^ 9))) step01
     [lng89_9w, fl (lng89_9w + step01)] \<and>
   fl (lng89_9w + step01) \<noteq> lng89_8w \<and>
   round6 (fl (lng89_9w + step01)) = lng89_8w"
proof (intro conjI)
  show "generateGridPoints exampleBox step03 = Some exampleGrid" by (rule example_grid)
  show "length exampleGrid = 9" by (simp add: exampleGrid_def)
  show "\<forall>pts. generateGridPoints b stepDeg = Some pts \<longrightarrow> list_all pointRounded pts"
  proof (intro allI impI)
    fix pts
    assume "generateGridPoints b stepDeg = Some pts"
    then have "latLoop b stepDeg (minLat b) [] = Some pts" by (simp add: generateGridPoints_def)
    from latLoop_rounded[OF this] show "list_all pointRounded pts" by simp
  qed
  show "generateGridPoints b stepDeg = Some grid \<longleftrightarrow>
      (\<exists>lats lngs.
         loopValues (minLat b) (fl (maxLat b + fl (1 / 10 ^ 9))) stepDeg lats \<and>
         (lats \<noteq> [] \<longrightarrow>
            loopValues (minLng b) (fl (maxLng b + fl (1 / 10 ^ 9))) stepDeg lngs) \<and>
         grid = gridOf lats lngs)"
    by (rule generateGridPoints_iff)
  show "loopValues v limit stepDeg xs \<longrightarrow>
      (xs = [] \<longleftrightarrow> \<not> v \<le> limit) \<and>
      (xs \<noteq> [] \<longrightarrow> hd xs = v \<and> \<not> fl (last xs + stepDeg) \<le> limit) \<and>
      (\<forall>x \<in> set xs. x \<le> limit) \<and>
      (\<forall>n. Suc n < length xs \<longrightarrow> xs ! Suc n = fl (xs ! n + stepDeg))"
    by (rule impI) (rule loopValues_shape)
  show "loopValues v limit stepDeg xs \<and> v \<le> y \<and> y \<le> limit \<longrightarrow>
      (\<exists>x \<in> set xs. x \<le> y \<and> y < fl (x + stepDeg))"
    using loopValues_cover by blast
  show "fl m = m \<longrightarrow> m \<le> fl (m + fl (1 / 10 ^ 9))"
    by (rule impI) (rule upper_bound_included)
  show "\<exists>k. round6 x = fl (of_int k / 10 ^ 6) \<and>
        of_int k - 1 / 2 \<le> fl (x * 10 ^ 6) \<and> fl (x * 10 ^ 6) < of_int k + 1 / 2"
    by (rule round6_nearest)
  show "\<bar>round6 x - x\<bar> \<le> 1 / (2 * 10 ^ 6) + (\<bar>x\<bar> + 1) / 2 ^ 51" by (rule round6_error)
  show "generateGridPoints guardBox step01 = Some guardGrid" by (rule guard_grid)
  show "length guardGrid = 4" by (simp add: guardGrid_def)
  show "loopValues (minLat guardBox) (fl (maxLat guardBox + fl (1 / 10 ^ 9))) step01
     [lat30_1, fl (lat30_1 + step01)]" by (rule guard_lat_values)
  show "\<not> fl (lat30_1 + step01) \<le> maxLat guardBox"
    unfolding guardBox_def by (simp only: bounds.select_convs guard_lat_in simp_thms)
  show "round6 (fl (lat30_1 + step01)) = lat30_2" by (rule round6_guard_lat)
  show "loopValues (minLng guardBox) (fl (maxLng guardBox + fl (1 / 10 ^ 9))) step01
     [lng89_9w, fl (lng89_9w + step01)]" by (rule guard_lng_values)
  show "fl (lng89_9w + step01) \<noteq> lng89_8w" by (rule guard_lng_in)
  show "round6 (fl (lng89_9w + step01)) = lng89_8w" by (rule round6_guard_lng)
qed

theorem grid_example_nine_points_witness:
  "generateGridPoints exampleBox step03 = Some exampleGrid \<and>
   list_all pointRounded exampleGrid \<and>
   (\<exists>lats lngs.
      loopValues (minLat exampleBox) (fl (maxLat exampleBox + fl (1 / 10 ^ 9))) step03 lats \<and>
      loopValues (minLng exampleBox) (fl (maxLng exampleBox + fl (1 / 10 ^ 9))) step03 lngs \<and>
      exampleGrid = gridOf lats lngs) \<and>
   fl lat30_6 = lat30_6 \<and> lat30_6 \<le> fl (lat30_6 + fl (1 / 10 ^ 9)) \<and>
   hd [lat30_1, fl (lat30_1 + step01)] = minLat guardBox \<and>
   \<not> fl (last [lat30_1, fl (lat30_1 + step01)] + step01) \<le>
       fl (maxLat guardBox + fl (1 / 10 ^ 9))"
proof -
  note t = grid_example_nine_points[where b = exampleBox and stepDeg = step03
      and grid = exampleGrid and m = lat30_6]
  note t2 = grid_example_nine_points[where stepDeg = step01
      and v = "minLat guardBox" and limit = "fl (maxLat guardBox + fl (1 / 10 ^ 9))"
      and xs = "[lat30_1, fl (lat30_1 + step01)]"]
  note g = t[THEN conjunct1]
  note rounded = t[THEN conjunct2, THEN conjunct2, THEN conjunct1, rule_format]
  note char = t[THEN conjunct2, THEN conjunct2, THEN conjunct2, THEN conjunct1]
  note shape = t2[THEN conjunct2, THEN conjunct2, THEN conjunct2, THEN conjunct2, THEN conjunct1, rule_format]
  note upper = t[THEN conjunct2, THEN conjunct2, THEN conjunct2, THEN conjunct2, THEN conjunct2, THEN conjunct2, THEN conjunct1, rule_format]
  note lat_values = t[THEN conjunct2, THEN conjunct2, THEN conjunct2, THEN conjunct2, THEN conjunct2, THEN conjunct2, THEN conjunct2, THEN conjunct2, THEN conjunct2, THEN conjunct2, THEN conjunct2, THEN conjunct1]
  from rounded[OF g] have r: "list_all pointRounded exampleGrid" .
  from char g obtain lats lngs where
    lats: "loopValues (minLat exampleBox) (fl (maxLat exampleBox + fl (1 / 10 ^ 9))) step03 lats"
    and lngs: "lats \<noteq> [] \<longrightarrow>
       loopValues (minLng exampleBox) (fl (maxLng exampleBox + fl (1 / 10 ^ 9))) step03 lngs"
    and grid: "exampleGrid = gridOf lats lngs" by blast
  have "lats \<noteq> []"
  proof
    assume "lats = []"
    with grid show False by (simp add: gridOf_def exampleGrid_def)
  qed
  with lats lngs grid have e: "\<exists>lats lngs.
      loopValues (minLat exampleBox) (fl (maxLat exampleBox + fl (1 / 10 ^ 9))) step03 lats \<and>
      loopValues (minLng exampleBox) (fl (maxLng exampleBox + fl (1 / 10 ^ 9))) step03 lngs \<and>
      exampleGrid = gridOf lats lngs" by blast
  from upper[OF fl_lat30_6] have u: "lat30_6 \<le> fl (lat30_6 + fl (1 / 10 ^ 9))" .
  from shape[OF lat_values] have h: "hd [lat30_1, fl (lat30_1 + step01)] = minLat guardBox"
    and l: "\<not> fl (last [lat30_1, fl (lat30_1 + step01)] + step01) \<le>
       fl (maxLat guardBox + fl (1 / 10 ^ 9))" by simp_all
  show ?thesis
    by (intro conjI) (rule g r e fl_lat30_6 u h l)+
qed

end
